theory Spec2Isabelle
  imports Main "HOL-Library.Sublist"
begin

section \<open>Strings of the Python runtime\<close>

text \<open>
  A Python \<^verbatim>\<open>str\<close> is a sequence of Unicode code points, and \<^verbatim>\<open>len\<close> counts code
  points. A character is therefore modelled by its code point, a natural number, and a
  string by a list of them. \<open>lit\<close> writes an ASCII literal of the source.
\<close>

type_synonym ustring = "nat list"

definition lit :: "string \<Rightarrow> ustring" where
  "lit s = map of_char s"

text \<open>
  The generator calls into the Unicode character database of the runtime: \<^verbatim>\<open>str.strip\<close>
  and the regular-expression class \<^verbatim>\<open>\s\<close> ask whether a character is whitespace,
  \<^verbatim>\<open>\d\<close> whether it is a decimal digit, \<^verbatim>\<open>\b\<close> whether it is alphanumeric;
  \<^verbatim>\<open>str.lower\<close> and \<^verbatim>\<open>str.title\<close> (the field \<open>titlecase\<close>) map whole strings. These tables are not part of the
  repository; every function that consults them takes them as the parameter \<open>U\<close>, and
  the theorems hold for all tables.
\<close>

record unicode =
  isspace :: "nat \<Rightarrow> bool"
  isdecimal :: "nat \<Rightarrow> bool"
  isalnum :: "nat \<Rightarrow> bool"
  lower :: "ustring \<Rightarrow> ustring"
  titlecase :: "ustring \<Rightarrow> ustring"

text \<open>
  The tables on the code points below 128, as CPython has them there: whitespace is
  9 to 13, 28 to 31 and 32, the decimal digits are 48 to 57, the alphanumerics are the
  digits and the letters, \<^verbatim>\<open>lower\<close> maps 65..90 to 97..122, and \<^verbatim>\<open>title\<close> starts every
  run of letters with a capital and lowers the rest of the run. Code points from 128 on
  are taken as neither whitespace nor alphanumeric and are left unchanged; \<open>ascii\<close> is
  used only to run the definitions on concrete inputs.
\<close>

definition ascii_upper :: "nat \<Rightarrow> bool" where
  "ascii_upper c = (65 \<le> c \<and> c \<le> 90)"

definition ascii_lower :: "nat \<Rightarrow> bool" where
  "ascii_lower c = (97 \<le> c \<and> c \<le> 122)"

definition ascii_digit :: "nat \<Rightarrow> bool" where
  "ascii_digit c = (48 \<le> c \<and> c \<le> 57)"

definition ascii_space :: "nat \<Rightarrow> bool" where
  "ascii_space c = ((9 \<le> c \<and> c \<le> 13) \<or> (28 \<le> c \<and> c \<le> 32))"

definition ascii_to_lower :: "nat \<Rightarrow> nat" where
  "ascii_to_lower c = (if ascii_upper c then c + 32 else c)"

fun ascii_title :: "bool \<Rightarrow> ustring \<Rightarrow> ustring" where
  "ascii_title prev_cased [] = []"
| "ascii_title prev_cased (c # cs) =
     (if ascii_lower c then (if prev_cased then c else c - 32) # ascii_title True cs
      else if ascii_upper c then (if prev_cased then c + 32 else c) # ascii_title True cs
      else c # ascii_title False cs)"

definition ascii :: unicode where
  "ascii = \<lparr> isspace = ascii_space, isdecimal = ascii_digit,
             isalnum = (\<lambda>c. ascii_digit c \<or> ascii_upper c \<or> ascii_lower c),
             lower = map ascii_to_lower, titlecase = ascii_title False \<rparr>"

subsection \<open>String methods\<close>

text \<open>\<^verbatim>\<open>s.strip()\<close>: whitespace removed at both ends.\<close>

definition strip :: "unicode \<Rightarrow> ustring \<Rightarrow> ustring" where
  "strip U s = rev (dropWhile (isspace U) (rev (dropWhile (isspace U) s)))"

text \<open>\<^verbatim>\<open>pat in s\<close>: \<open>pat\<close> occurs in \<open>s\<close> as a contiguous substring.\<close>

fun contains :: "ustring \<Rightarrow> ustring \<Rightarrow> bool" where
  "contains [] pat = (pat = [])"
| "contains (c # cs) pat = (prefix pat (c # cs) \<or> contains cs pat)"

text \<open>\<^verbatim>\<open>s.find(sep)\<close>, with \<open>None\<close> for Python's -1.\<close>

fun find_str :: "ustring \<Rightarrow> ustring \<Rightarrow> nat option" where
  "find_str [] sep = (if sep = [] then Some 0 else None)"
| "find_str (c # cs) sep =
     (if prefix sep (c # cs) then Some 0 else map_option Suc (find_str cs sep))"

text \<open>\<^verbatim>\<open>s.split(sep, 1)\<close> for a non-empty separator: at most one split, at the first
  occurrence.\<close>

definition split1 :: "ustring \<Rightarrow> ustring \<Rightarrow> ustring list" where
  "split1 s sep =
     (case find_str s sep of
        None \<Rightarrow> [s]
      | Some i \<Rightarrow> [take i s, drop (i + length sep) s])"

datatype error = IndexError | BadZipFile | KeyError | ParseError

text \<open>\<^verbatim>\<open>xs[i]\<close> for a non-negative index; out of range it raises.\<close>

definition item :: "'a list \<Rightarrow> nat \<Rightarrow> error + 'a" where
  "item xs i = (if i < length xs then Inr (xs ! i) else Inl IndexError)"

text \<open>\<^verbatim>\<open>s.endswith((a, b, ...))\<close>: some member of the tuple is a suffix of \<open>s\<close>.\<close>

definition endswith :: "ustring \<Rightarrow> ustring list \<Rightarrow> bool" where
  "endswith s sufs = list_ex (\<lambda>x. suffix x s) sufs"

text \<open>\<^verbatim>\<open>sep.join(xs)\<close>.\<close>

fun join :: "ustring \<Rightarrow> ustring list \<Rightarrow> ustring" where
  "join sep [] = []"
| "join sep [x] = x"
| "join sep (x # y # ys) = x @ sep @ join sep (y # ys)"

text \<open>\<^verbatim>\<open>html.escape(s)\<close> with its default \<^verbatim>\<open>quote=True\<close>: the five markup characters are
  replaced by their entities, every other character is kept.\<close>

definition escape_char :: "nat \<Rightarrow> ustring" where
  \<open>escape_char c =
     (if c = 38 then lit ''&amp;''
      else if c = 60 then lit ''&lt;''
      else if c = 62 then lit ''&gt;''
      else if c = 34 then lit ''&quot;''
      else if c = 39 then lit ''&#x27;''
      else [c])\<close>

definition escape :: "ustring \<Rightarrow> ustring" where
  "escape s = concat (map escape_char s)"

section \<open>Line classifier\<close>

text \<open>
  The word characters of \<^verbatim>\<open>\b\<close> are the alphanumerics and the underscore. \<open>boundary U c rest\<close>
  is \<^verbatim>\<open>\b\<close> at a position with the character \<open>c\<close> before it and the text \<open>rest\<close> after it:
  exactly one side is a word character, the end of the text counting as none.
\<close>

definition isword :: "unicode \<Rightarrow> nat \<Rightarrow> bool" where
  "isword U c = (isalnum U c \<or> c = 95)"

definition boundary :: "unicode \<Rightarrow> nat \<Rightarrow> ustring \<Rightarrow> bool" where
  "boundary U c rest = (isword U c \<noteq> (case rest of [] \<Rightarrow> False | d # _ \<Rightarrow> isword U d))"

text \<open>\<^verbatim>\<open>\d+\b\<close> at the start of the text: some non-empty run of digits ends at a boundary.\<close>

fun digits_b :: "unicode \<Rightarrow> ustring \<Rightarrow> bool" where
  "digits_b U [] = False"
| "digits_b U (c # cs) = (isdecimal U c \<and> (boundary U c cs \<or> digits_b U cs))"

text \<open>\<^verbatim>\<open>\s+\d+\b\<close> at the start of the text.\<close>

fun spaces_digits_b :: "unicode \<Rightarrow> ustring \<Rightarrow> bool" where
  "spaces_digits_b U [] = False"
| "spaces_digits_b U (c # cs) = (isspace U c \<and> (digits_b U cs \<or> spaces_digits_b U cs))"

text \<open>\<^verbatim>\<open>re.match(r"^(MODULE|Module)\s+\d+\b", line)\<close>: no flag is passed, the two spellings
  are matched as written.\<close>

definition match_module :: "unicode \<Rightarrow> ustring \<Rightarrow> bool" where
  "match_module U line =
     ((prefix (lit ''MODULE'') line \<or> prefix (lit ''Module'') line)
      \<and> spaces_digits_b U (drop 6 line))"

text \<open>A non-empty literal at the start of the text, followed by \<^verbatim>\<open>\b\<close>.\<close>

definition literal_b :: "unicode \<Rightarrow> ustring \<Rightarrow> ustring \<Rightarrow> bool" where
  "literal_b U l s = (prefix l s \<and> boundary U (last l) (drop (length l) s))"

datatype kind = K_h2 | K_h3 | K_core | K_p

definition section_titles :: "ustring list" where
  "section_titles =
     [lit ''Framework'', lit ''Case Studies'', lit ''Challenge Exercise'',
      lit ''What This Module Builds'', lit ''Real-World Applications'',
      lit ''Key Takeaways'', lit ''Closing'', lit ''Conclusion'']"

definition classify_line :: "unicode \<Rightarrow> ustring \<Rightarrow> kind" where
  "classify_line U line =
     (if match_module U line then K_h2
      else if literal_b U (lit ''Executive Summary'') line
              \<or> literal_b U (lit ''EXECUTIVE SUMMARY'') line then K_h2
      else if literal_b U (lit ''Core Principle:'') line then K_core
      else if strip U line \<in> set section_titles then K_h3
      else K_p)"

section \<open>Content renderer\<close>

text \<open>The local variables of \<^verbatim>\<open>build_content_html\<close> that the loop updates.\<close>

record rstate =
  out :: "ustring list"
  in_ul :: bool
  prev_kind :: "kind option"

definition emit :: "ustring \<Rightarrow> rstate \<Rightarrow> rstate" where
  "emit x st = st\<lparr>out := out st @ [x]\<rparr>"

definition ul_open :: ustring where
  \<open>ul_open = lit ''<ul class="bul">''\<close>

definition ul_close :: ustring where
  \<open>ul_close = lit ''</ul>''\<close>

definition close_ul :: "rstate \<Rightarrow> rstate" where
  "close_ul st = (if in_ul st then (emit ul_close st)\<lparr>in_ul := False\<rparr> else st)"

definition h2_markup :: "ustring \<Rightarrow> ustring" where
  \<open>h2_markup line = lit ''<h2 class="sec">'' @ escape line @ lit ''</h2>''\<close>

definition h3_markup :: "ustring \<Rightarrow> ustring" where
  \<open>h3_markup line = lit ''<h3 class="subsec">'' @ escape line @ lit ''</h3>''\<close>

definition core_markup :: "ustring \<Rightarrow> ustring" where
  \<open>core_markup payload =
     lit ''<p class="core"><strong>'' @ escape (lit ''Core Principle:'') @ lit ''</strong> ''
       @ escape payload @ lit ''</p>''\<close>

definition li_markup :: "ustring \<Rightarrow> ustring" where
  \<open>li_markup line = lit ''<li>'' @ escape line @ lit ''</li>''\<close>

definition p_markup :: "ustring \<Rightarrow> ustring" where
  \<open>p_markup line = lit ''<p class="p">'' @ escape line @ lit ''</p>''\<close>

text \<open>The three endings of a bullet-shaped line; 8212 is the em-dash.\<close>

definition bullet_endings :: "ustring list" where
  "bullet_endings = [lit ''.'', lit '')'', [8212]]"

definition looks_bulleted :: "ustring \<Rightarrow> bool" where
  "looks_bulleted line = (length line \<le> 110 \<and> endswith line bullet_endings)"

text \<open>One iteration of the loop over the paragraphs.\<close>

definition render_line :: "unicode \<Rightarrow> rstate \<Rightarrow> ustring \<Rightarrow> error + rstate" where
  "render_line U st raw =
     (let line = strip U raw;
          kind = classify_line U line;
          st1 = (if kind = K_h2 \<or> kind = K_h3 then close_ul st else st)
      in case
           (case kind of
              K_h2 \<Rightarrow> Inr (emit (h2_markup line) st1)
            | K_h3 \<Rightarrow> Inr (emit (h3_markup line) st1)
            | K_core \<Rightarrow>
                (case item (split1 line (lit ''Core Principle:'')) 1 of
                   Inl e \<Rightarrow> Inl e
                 | Inr rest \<Rightarrow> Inr (emit (core_markup (strip U rest)) (close_ul st1)))
            | K_p \<Rightarrow>
                (let bullet_context = (prev_kind st1 = Some K_h3)
                 in if bullet_context \<and> looks_bulleted line
                    then Inr (emit (li_markup line)
                               (if \<not> in_ul st1 then (emit ul_open st1)\<lparr>in_ul := True\<rparr> else st1))
                    else Inr (emit (p_markup line) (close_ul st1))))
         of Inl e \<Rightarrow> Inl e
          | Inr st2 \<Rightarrow> Inr (st2\<lparr>prev_kind := Some kind\<rparr>))"

fun render_lines :: "unicode \<Rightarrow> rstate \<Rightarrow> ustring list \<Rightarrow> error + rstate" where
  "render_lines U st [] = Inr st"
| "render_lines U st (raw # rest) =
     (case render_line U st raw of
        Inl e \<Rightarrow> Inl e
      | Inr st' \<Rightarrow> render_lines U st' rest)"

definition init :: rstate where
  "init = \<lparr> out = [], in_ul = False, prev_kind = None \<rparr>"

text \<open>The list \<^verbatim>\<open>out\<close> when the function returns, after the last \<^verbatim>\<open>close_ul()\<close>.\<close>

definition build_content_pieces :: "unicode \<Rightarrow> ustring list \<Rightarrow> error + ustring list" where
  "build_content_pieces U paras =
     (case render_lines U init paras of
        Inl e \<Rightarrow> Inl e
      | Inr st \<Rightarrow> Inr (out (close_ul st)))"

definition build_content_html :: "unicode \<Rightarrow> ustring list \<Rightarrow> error + ustring" where
  "build_content_html U paras =
     (case build_content_pieces U paras of
        Inl e \<Rightarrow> Inl e
      | Inr pieces \<Rightarrow> Inr (join (lit ''\<newline>'') pieces))"

section \<open>Section clipper\<close>

text \<open>The inner loop over the markers: does some marker, lowered, occur in the lowered
  line?\<close>

primrec marker_in :: "unicode \<Rightarrow> ustring \<Rightarrow> ustring list \<Rightarrow> bool" where
  "marker_in U line [] = False"
| "marker_in U line (m # ms) =
     (if contains (lower U line) (lower U m) then True else marker_in U line ms)"

text \<open>The outer loop: \<open>i\<close> is the index that \<^verbatim>\<open>enumerate\<close> gives to the first of the
  paragraphs still to scan; a hit returns \<^verbatim>\<open>paras[:i]\<close>.\<close>

fun cut_scan :: "unicode \<Rightarrow> ustring list \<Rightarrow> ustring list \<Rightarrow> nat \<Rightarrow> ustring list \<Rightarrow> ustring list" where
  "cut_scan U paras end_markers i [] = paras"
| "cut_scan U paras end_markers i (line # rest) =
     (if marker_in U line end_markers then take i paras
      else cut_scan U paras end_markers (Suc i) rest)"

text \<open>\<open>None\<close> is the \<^verbatim>\<open>None\<close> that \<^verbatim>\<open>END_MARKERS.get(key)\<close> returns for a key without
  markers; \<^verbatim>\<open>not end_markers\<close> holds for it and for the empty list.\<close>

definition cut_section :: "unicode \<Rightarrow> ustring list \<Rightarrow> ustring list option \<Rightarrow> ustring list" where
  "cut_section U paras end_markers =
     (case end_markers of
        None \<Rightarrow> paras
      | Some ms \<Rightarrow> if ms = [] then paras else cut_scan U paras ms 0 paras)"

section \<open>Page assembler\<close>

text \<open>The templates are written line by line: a multi-line literal of the source is the
  \<^verbatim>\<open>join\<close> of its lines with the newline character, and the doubled braces of an
  f-string are single braces.\<close>

definition nav :: ustring where
  \<open>nav =
     join (lit ''\<newline>'')
       [[],
        lit ''      <a href="index.html">All Modules</a>'',
        lit ''      <a href="platforms/business.html">Business</a>'',
        lit ''      <a href="platforms/sports.html">Sports</a>'',
        lit ''      <a href="platforms/if.html">If'' @ [8212] @ lit ''</a>'',
        lit ''      <a href="platforms/guitar.html">Guitar</a>'',
        lit ''      <a href="platforms/spiritual.html">Spiritual</a>'',
        lit ''      <a href="platforms/dadjokes.html">Dad Jokes</a>'',
        lit ''      <a href="platforms/power.html">Power</a>'',
        lit ''      <a href="platforms/art.html">Art/Sketch</a>'',
        lit ''    '']\<close>

text \<open>One figure of the gallery, for one extracted file name.\<close>

definition figure :: "ustring \<Rightarrow> ustring \<Rightarrow> ustring" where
  \<open>figure platform_key name =
     lit ''<figure class="img"><img src="../images/'' @ platform_key @ lit ''/'' @ escape name
       @ lit ''" alt="'' @ escape name @ lit ''"><figcaption>'' @ escape name
       @ lit ''</figcaption></figure>''\<close>

text \<open>The local variable \<^verbatim>\<open>gallery\<close>: empty unless an image was extracted.\<close>

definition gallery :: "ustring \<Rightarrow> ustring list \<Rightarrow> ustring" where
  \<open>gallery platform_key extracted_images =
     (if extracted_images \<noteq> [] then
        (let imgs = join (lit ''\<newline>'') (map (figure platform_key) extracted_images)
         in join (lit ''\<newline>'')
       [[],
        lit ''        <section class="card">'',
        lit ''          <h2 class="sec">Images from the Word document</h2>'',
        lit ''          <p class="note">These were extracted automatically. You can later move each image into the exact module where it belongs.</p>'',
        lit ''          <div class="imggrid">'',
        lit ''            '' @ imgs,
        lit ''          </div>'',
        lit ''        </section>'',
        lit ''        ''])
      else [])\<close>

definition wrap_page :: "ustring \<Rightarrow> ustring \<Rightarrow> ustring \<Rightarrow> ustring list \<Rightarrow> ustring" where
  \<open>wrap_page platform_key title content_html extracted_images =
     join (lit ''\<newline>'')
       [lit ''<!doctype html>'',
        lit ''<html lang="en">'',
        lit ''<head>'',
        lit ''  <meta charset="utf-8" />'',
        lit ''  <meta name="viewport" content="width=device-width,initial-scale=1" />'',
        lit ''  <title>'' @ escape title @ lit ''</title>'',
        lit ''  <style>'',
        lit ''    :root {'',
        lit ''      --bg:#0b0f17; --panel:#101827; --text:#e9eefc; --muted:#b7c2df; --line:rgba(255,255,255,.12);'',
        lit ''      --accent:#ff7a18; --shadow:0 18px 60px rgba(0,0,0,.45);'',
        lit ''      --r:18px; --r2:24px; --max:1100px;'',
        lit ''      --sans: ui-sans-serif, system-ui, -apple-system, Segoe UI, Roboto, Helvetica, Arial;'',
        lit ''    }'',
        lit ''    *{box-sizing:border-box}'',
        lit ''    body{margin:0;font-family:var(--sans);color:var(--text);background:linear-gradient(180deg,#070a11,var(--bg));}'',
        lit ''    .wrap{max-width:var(--max);margin:0 auto;padding:0 22px;}'',
        lit ''    header{position:sticky;top:0;z-index:40;backdrop-filter: blur(12px);background:rgba(10,15,24,.75);border-bottom:1px solid var(--line);}'',
        lit ''    .top{display:flex;gap:14px;align-items:center;justify-content:space-between;padding:14px 0;flex-wrap:wrap;}'',
        lit ''    .brand{font-weight:800;letter-spacing:.2px}'',
        lit ''    nav a{color:var(--muted);text-decoration:none;border:1px solid var(--line);padding:8px 12px;border-radius:999px;font-size:13px;}'',
        lit ''    nav a:hover{color:var(--text);border-color:rgba(255,255,255,.22)}'',
        lit ''    .hero{padding:26px 0 10px;}'',
        lit ''    .hero h1{margin:0 0 8px;font-size:34px;letter-spacing:-.02em}'',
        lit ''    .hero p{margin:0;color:var(--muted);max-width:75ch;line-height:1.55}'',
        lit ''    .card{border:1px solid var(--line);background:rgba(16,24,39,.58);border-radius:var(--r2);box-shadow:var(--shadow);padding:18px;margin:14px 0;}'',
        lit ''    .sec{margin:0 0 10px;font-size:20px;letter-spacing:-.01em}'',
        lit ''    .subsec{margin:14px 0 8px;font-size:16px;color:var(--text)}'',
        lit ''    .p{margin:0 0 10px;color:var(--muted);line-height:1.6}'',
        lit ''    .core{margin:0 0 10px;color:var(--muted);line-height:1.6;border-left:3px solid rgba(255,122,24,.55);padding-left:12px}'',
        lit ''    .bul{margin:6px 0 10px;padding-left:18px;color:var(--muted);line-height:1.55}'',
        lit ''    .bul li{margin:6px 0}'',
        lit ''    .note{color:rgba(255,255,255,.65);font-size:13px;line-height:1.5}'',
        lit ''    .imggrid{display:grid;grid-template-columns:repeat(3,minmax(0,1fr));gap:10px}'',
        lit ''    .img{border:1px solid var(--line);border-radius:16px;overflow:hidden;background:rgba(0,0,0,.12);margin:0}'',
        lit ''    .img img{width:100%;height:160px;object-fit:cover;display:block}'',
        lit ''    .img figcaption{padding:8px 10px;color:rgba(255,255,255,.65);font-size:12px}'',
        lit ''    @media (max-width: 920px){ .imggrid{grid-template-columns:1fr} }'',
        lit ''    footer{border-top:1px solid var(--line);padding:26px 0 44px;color:rgba(255,255,255,.62);font-size:13px;margin-top:24px}'',
        lit ''  </style>'',
        lit ''</head>'',
        lit ''<body>'',
        lit ''<header>'',
        lit ''  <div class="wrap">'',
        lit ''    <div class="top">'',
        lit ''      <div class="brand">Luke Carter '' @ [183] @ lit '' Platforms</div>'',
        lit ''      <nav aria-label="platform navigation">'' @ nav @ lit ''</nav>'',
        lit ''    </div>'',
        lit ''  </div>'',
        lit ''</header>'',
        [],
        lit ''<div class="wrap">'',
        lit ''  <section class="hero">'',
        lit ''    <h1>'' @ escape title @ lit ''</h1>'',
        lit ''    <p>This page is generated directly from the Word document so no module content gets lost. If you update the doc, re-run the script.</p>'',
        lit ''  </section>'',
        [],
        lit ''  <section class="card">'',
        lit ''    '' @ content_html,
        lit ''  </section>'',
        [],
        lit ''  '' @ gallery platform_key extracted_images,
        [],
        lit ''  <footer>'',
        lit ''    Tip: If a doc contains multiple platforms appended, adjust END_MARKERS in the script so each page cuts off at the correct boundary.'',
        lit ''  </footer>'',
        lit ''</div>'',
        lit ''</body>'',
        lit ''</html>'',
        []]\<close>

section \<open>Archive reader\<close>

text \<open>
  An element of a parsed XML document, as the element tree presents it: its expanded tag,
  the text before its first child (\<open>None\<close> when there is none) and its children.
\<close>

datatype xml = Element (tag: ustring) (text_of: "ustring option") (children: "xml list")

text \<open>A member of an archive is a well-formed XML document, given by its root, or other
  bytes.\<close>

datatype payload = Xml xml | Raw "nat list"

text \<open>The content of a file is a zip archive, given by its members in the order of its directory, or a text
  file, or some other file; the last two are not archives.\<close>

datatype content = Zip "(ustring \<times> payload) list" | Text ustring | Bytes payload

text \<open>\<^verbatim>\<open>zipfile.ZipFile(path, "r")\<close>, for a path that exists.\<close>

definition open_zip :: "content \<Rightarrow> error + (ustring \<times> payload) list" where
  "open_zip f = (case f of Zip members \<Rightarrow> Inr members | _ \<Rightarrow> Inl BadZipFile)"

text \<open>\<^verbatim>\<open>z.read(name)\<close>: the last member of that name; none raises.\<close>

definition zread :: "(ustring \<times> payload) list \<Rightarrow> ustring \<Rightarrow> error + payload" where
  "zread members name =
     (case map_of (rev members) name of None \<Rightarrow> Inl KeyError | Some d \<Rightarrow> Inr d)"

text \<open>\<^verbatim>\<open>ET.fromstring(data)\<close>.\<close>

definition fromstring :: "payload \<Rightarrow> error + xml" where
  "fromstring d = (case d of Xml root \<Rightarrow> Inr root | Raw _ \<Rightarrow> Inl ParseError)"

text \<open>The elements below an element, in document order: what \<^verbatim>\<open>.//\<close> ranges over.\<close>

fun descendants :: "xml \<Rightarrow> xml list" where
  "descendants (Element t x cs) = concat (map (\<lambda>c. c # descendants c) cs)"

definition w_ns :: ustring where
  "w_ns = lit ''http://schemas.openxmlformats.org/wordprocessingml/2006/main''"

text \<open>\<^verbatim>\<open>e.findall(".//w:name", ns)\<close>.\<close>

definition findall_w :: "xml \<Rightarrow> ustring \<Rightarrow> xml list" where
  "findall_w e name = filter (\<lambda>d. tag d = lit ''{'' @ w_ns @ lit ''}'' @ name) (descendants e)"

text \<open>\<^verbatim>\<open>re.sub(r"[ \t]+", " ", line)\<close>: every run of spaces and tabs becomes one space.\<close>

function collapse_blanks :: "ustring \<Rightarrow> ustring" where
  "collapse_blanks [] = []"
| "collapse_blanks (c # cs) =
     (if c = 32 \<or> c = 9 then 32 # collapse_blanks (dropWhile (\<lambda>d. d = 32 \<or> d = 9) cs)
      else c # collapse_blanks cs)"
  by pat_completeness auto
termination
  by (relation "measure length") (auto simp: length_dropWhile_le less_Suc_eq_le)

text \<open>The text of one paragraph element: its non-empty runs, concatenated and stripped.\<close>

definition paragraph_line :: "unicode \<Rightarrow> xml \<Rightarrow> ustring" where
  "paragraph_line U p =
     strip U (concat (map (\<lambda>t. case text_of t of None \<Rightarrow> [] | Some s \<Rightarrow> s)
                        (findall_w p (lit ''t''))))"

definition read_docx_paragraphs :: "unicode \<Rightarrow> content \<Rightarrow> error + ustring list" where
  "read_docx_paragraphs U docx =
     (case open_zip docx of
        Inl e \<Rightarrow> Inl e
      | Inr z \<Rightarrow>
          (case zread z (lit ''word/document.xml'') of
             Inl e \<Rightarrow> Inl e
           | Inr data \<Rightarrow>
               (case fromstring data of
                  Inl e \<Rightarrow> Inl e
                | Inr root \<Rightarrow>
                    Inr (map collapse_blanks
                          (filter (\<lambda>line. line \<noteq> [])
                             (map (paragraph_line U) (findall_w root (lit ''p''))))))))"

section \<open>Driver\<close>

text \<open>
  The world of a run: the files by path, and what has been printed. Directories are not
  modelled, and a write always succeeds.
\<close>

datatype event = Skip ustring | Read ustring | Write ustring nat | Done

record world =
  files :: "ustring \<Rightarrow> content option"
  printed :: "event list"

definition print :: "event \<Rightarrow> world \<Rightarrow> world" where
  "print e w = w\<lparr>printed := printed w @ [e]\<rparr>"

definition write_file :: "ustring \<Rightarrow> content \<Rightarrow> world \<Rightarrow> world" where
  "write_file path f w = w\<lparr>files := (files w)(path \<mapsto> f)\<rparr>"

text \<open>\<^verbatim>\<open>s.split("/")\<close>.\<close>

fun split_slash :: "ustring \<Rightarrow> ustring list" where
  "split_slash [] = [[]]"
| "split_slash (c # cs) =
     (if c = 47 then [] # split_slash cs
      else (case split_slash cs of [] \<Rightarrow> [[c]] | x # xs \<Rightarrow> (c # x) # xs))"

text \<open>\<^verbatim>\<open>Path(f).name\<close> for a relative path: the last component, where empty components
  and single dots do not count.\<close>

definition path_name :: "ustring \<Rightarrow> ustring" where
  "path_name f =
     (case filter (\<lambda>c. c \<noteq> [] \<and> c \<noteq> lit ''.'') (split_slash f) of
        [] \<Rightarrow> []
      | cs \<Rightarrow> last cs)"

text \<open>The loop of \<^verbatim>\<open>extract_docx_images\<close> over the media members.\<close>

fun extract_loop ::
  "(ustring \<times> payload) list \<Rightarrow> ustring \<Rightarrow> ustring list \<Rightarrow> ustring list \<times> world
     \<Rightarrow> error + ustring list \<times> world" where
  "extract_loop z out_folder [] (extracted, w) = Inr (extracted, w)"
| "extract_loop z out_folder (f # fs) (extracted, w) =
     (case zread z f of
        Inl e \<Rightarrow> Inl e
      | Inr data \<Rightarrow>
          (let name = path_name f;
               target = out_folder @ lit ''/'' @ name
           in extract_loop z out_folder fs
                (extracted @ [name], write_file target (Bytes data) w)))"

definition extract_docx_images ::
  "content \<Rightarrow> ustring \<Rightarrow> world \<Rightarrow> error + ustring list \<times> world" where
  "extract_docx_images docx out_folder w =
     (case open_zip docx of
        Inl e \<Rightarrow> Inl e
      | Inr z \<Rightarrow>
          (let media_files = filter (prefix (lit ''word/media/'')) (map fst z)
           in extract_loop z out_folder media_files ([], w)))"

definition DOCS :: "(ustring \<times> ustring) list" where
  "DOCS =
     [(lit ''business'', lit ''Business and Entrepenurship Platform.docx''),
      (lit ''sports'', lit ''THE SPORTS LEADERSHIP PLATFORM.docx''),
      (lit ''if'', lit ''If Leadership Platform.docx''),
      (lit ''guitar'', lit ''THE GUITAR TRAINING PLATFORM.docx''),
      (lit ''spiritual'', lit ''Spiritual Leadership.docx''),
      (lit ''dadjokes'', lit ''THE DAD JOKE MASTERY PLATFORM.docx''),
      (lit ''power'', lit ''Power platform.docx''),
      (lit ''art'', [127912] @ lit '' THE ADVANCED SKETCH PLATFORM.docx'')]"

definition END_MARKERS :: "ustring \<Rightarrow> ustring list option" where
  "END_MARKERS =
     map_of
       [(lit ''sports'',
           [[127912], lit ''THE ADVANCED SKETCH'', lit ''See More. Choose More. Create More.'']),
        (lit ''spiritual'',
           [lit ''See More. Choose More. Create More.'', [127912], lit ''THE ADVANCED SKETCH''])]"

text \<open>The loop of \<^verbatim>\<open>main\<close> over the configured documents. An exception that the loop does
  not catch ends the run: the result is the world at that point and the error.\<close>

fun main_loop :: "unicode \<Rightarrow> (ustring \<times> ustring) list \<Rightarrow> world \<Rightarrow> world \<times> error option" where
  "main_loop U [] w = (print Done w, None)"
| "main_loop U ((key, filename) # rest) w =
     (case files w filename of
        None \<Rightarrow> main_loop U rest (print (Skip filename) w)
      | Some docx \<Rightarrow>
          (let w1 = print (Read filename) w
           in case read_docx_paragraphs U docx of
                Inl e \<Rightarrow> (w1, Some e)
              | Inr paras0 \<Rightarrow>
                  (let paras = cut_section U paras0 (END_MARKERS key);
                       title = (case paras of
                                  [] \<Rightarrow> titlecase U key @ lit '' Platform''
                                | first # _ \<Rightarrow> first);
                       img_out = lit ''images/'' @ key
                   in case extract_docx_images docx img_out w1 of
                        Inl e \<Rightarrow> (w1, Some e)
                      | Inr (extracted, w2) \<Rightarrow>
                          (case build_content_html U paras of
                             Inl e \<Rightarrow> (w2, Some e)
                           | Inr content_html \<Rightarrow>
                               (let html = wrap_page key title content_html extracted;
                                    out_file = lit ''platforms/'' @ key @ lit ''.html'';
                                    w3 = write_file out_file (Text html) w2
                                in main_loop U rest
                                     (print (Write out_file (length extracted)) w3))))))"

definition main :: "unicode \<Rightarrow> world \<Rightarrow> world \<times> error option" where
  "main U w = main_loop U DOCS w"

section \<open>Notions used to state the properties\<close>

text \<open>The number of positions of a text at which a pattern occurs.\<close>

fun occurrences :: "ustring \<Rightarrow> ustring \<Rightarrow> nat" where
  "occurrences pat [] = (if pat = [] then 1 else 0)"
| "occurrences pat (c # cs) = (if prefix pat (c # cs) then 1 else 0) + occurrences pat cs"

text \<open>The opening and the closing tag of a bullet list, as they are counted in the rendered
  fragment.\<close>

definition tag_open :: ustring where "tag_open = lit ''<ul''"
definition tag_close :: ustring where "tag_close = lit ''</ul>''"

text \<open>A piece of the fragment is a list item when it starts with the item tag. The pieces are
  well formed when every opened list holds exactly one item and is closed right after it,
  and no item or closing tag stands outside such a list.\<close>

definition is_li :: "ustring \<Rightarrow> bool" where
  "is_li x = prefix (lit ''<li>'') x"

fun single_item_lists :: "ustring list \<Rightarrow> bool" where
  "single_item_lists [] = True"
| "single_item_lists (x # xs) =
     (if x = ul_open
      then (case xs of
              i # c # rest \<Rightarrow> is_li i \<and> c = ul_close \<and> single_item_lists rest
            | _ \<Rightarrow> False)
      else \<not> is_li x \<and> x \<noteq> ul_close \<and> single_item_lists xs)"

definition markup_count :: "ustring \<Rightarrow> ustring list \<Rightarrow> nat" where
  "markup_count pat pieces = sum_list (map (occurrences pat) pieces)"

definition balanced :: "rstate \<Rightarrow> bool" where
  "balanced st \<longleftrightarrow>
     markup_count tag_open (out st) = markup_count tag_close (out st) + (if in_ul st then 1 else 0)"

definition lists_ok :: "rstate \<Rightarrow> bool" where
  "lists_ok st \<longleftrightarrow>
     (if in_ul st
      then prev_kind st = Some K_p
           \<and> (\<exists>pre x. out st = pre @ [ul_open, li_markup x] \<and> single_item_lists pre)
      else single_item_lists (out st))"

text \<open>The seven shapes of a piece of the fragment, and the opening tag of the gallery
  grid.\<close>

definition rendered_piece :: "ustring \<Rightarrow> bool" where
  "rendered_piece x \<longleftrightarrow>
     x = ul_open \<or> x = ul_close
     \<or> (\<exists>t. x = h2_markup t \<or> x = h3_markup t \<or> x = core_markup t
             \<or> x = li_markup t \<or> x = p_markup t)"

definition grid_open :: ustring where
  \<open>grid_open = lit ''<div class="imggrid">''\<close>

text \<open>
  The path of the page of a key; the paths below the two output directories; the image
  names that \<^verbatim>\<open>extract_docx_images\<close> returns for a document; and the page that one
  iteration of the driver computes from the key, the extracted paragraphs and the extracted
  image names.
\<close>

definition page_path :: "ustring \<Rightarrow> ustring" where
  "page_path key = lit ''platforms/'' @ key @ lit ''.html''"

definition output_path :: "ustring \<Rightarrow> bool" where
  "output_path p \<longleftrightarrow> prefix (lit ''platforms/'') p \<or> prefix (lit ''images/'') p"

definition image_names :: "content \<Rightarrow> ustring list" where
  "image_names docx =
     (case docx of
        Zip z \<Rightarrow> map path_name (filter (prefix (lit ''word/media/'')) (map fst z))
      | _ \<Rightarrow> [])"

definition page_of :: "unicode \<Rightarrow> ustring \<Rightarrow> ustring list \<Rightarrow> ustring list \<Rightarrow> error + ustring" where
  "page_of U key paras0 extracted =
     (let paras = cut_section U paras0 (END_MARKERS key);
          title = (case paras of
                     [] \<Rightarrow> titlecase U key @ lit '' Platform''
                   | first # _ \<Rightarrow> first)
      in case build_content_html U paras of
           Inl e \<Rightarrow> Inl e
         | Inr content_html \<Rightarrow> Inr (wrap_page key title content_html extracted))"

text \<open>A small document and four worlds, to run the driver on.\<close>

definition w_tag :: "ustring \<Rightarrow> ustring" where
  "w_tag name = lit ''{'' @ w_ns @ lit ''}'' @ name"

definition example_paragraph :: "ustring \<Rightarrow> xml" where
  "example_paragraph s =
     Element (w_tag (lit ''p'')) None
       [Element (w_tag (lit ''r'')) None [Element (w_tag (lit ''t'')) (Some s) []]]"

definition example_docx :: content where
  "example_docx =
     Zip [(lit ''word/document.xml'',
           Xml (Element (w_tag (lit ''document'')) None
                  [Element (w_tag (lit ''body'')) None
                     (map example_paragraph
                        [lit ''Power'', lit ''Module 1'', lit ''Framework'',
                         lit ''Builds trust.''])])),
          (lit ''word/media/image1.png'', Raw [137, 80, 78, 71])]"

definition world_one :: world where
  "world_one = \<lparr> files = [lit ''Power platform.docx'' \<mapsto> example_docx], printed = [] \<rparr>"

definition empty_docx :: content where
  "empty_docx =
     Zip [(lit ''word/document.xml'', Xml (Element (w_tag (lit ''document'')) None []))]"

definition world_two :: world where
  "world_two =
     \<lparr> files = [lit ''Power platform.docx'' \<mapsto> example_docx,
                 lit ''If Leadership Platform.docx'' \<mapsto> empty_docx,
                 lit ''platforms/power.html'' \<mapsto> Text (lit ''stale'')],
       printed = [] \<rparr>"

definition world_corrupt :: world where
  "world_corrupt =
     \<lparr> files = [lit ''Business and Entrepenurship Platform.docx'' \<mapsto> Bytes (Raw []),
                 lit ''Power platform.docx'' \<mapsto> example_docx],
       printed = [] \<rparr>"

definition world_no_body :: world where
  "world_no_body =
     \<lparr> files = [lit ''Business and Entrepenurship Platform.docx'' \<mapsto>
                   Zip [(lit ''word/media/image1.png'', Raw [137, 80, 78, 71])],
                 lit ''Power platform.docx'' \<mapsto> example_docx],
       printed = [] \<rparr>"

section \<open>Properties\<close>

lemma find_str_prefix: "sep \<noteq> [] \<Longrightarrow> prefix sep s \<Longrightarrow> find_str s sep = Some 0"
  by (cases s) auto

lemma core_payload:
  assumes "classify_line U line = K_core"
  shows "item (split1 line (lit ''Core Principle:'')) 1 = Inr (drop 15 line)"
proof -
  from assms have "literal_b U (lit ''Core Principle:'') line"
    by (simp add: classify_line_def split: if_splits)
  then have "prefix (lit ''Core Principle:'') line"
    by (simp add: literal_b_def)
  then have "find_str line (lit ''Core Principle:'') = Some 0"
    by (intro find_str_prefix) (simp_all add: lit_def)
  moreover have "length (lit ''Core Principle:'') = 15"
    by (simp add: lit_def)
  ultimately show ?thesis
    by (simp add: split1_def item_def)
qed

lemma render_line_h2:
  "classify_line U (strip U raw) = K_h2 \<Longrightarrow>
   render_line U st raw = Inr ((emit (h2_markup (strip U raw)) (close_ul st))\<lparr>prev_kind := Some K_h2\<rparr>)"
  by (simp add: render_line_def)

lemma render_line_h3:
  "classify_line U (strip U raw) = K_h3 \<Longrightarrow>
   render_line U st raw = Inr ((emit (h3_markup (strip U raw)) (close_ul st))\<lparr>prev_kind := Some K_h3\<rparr>)"
  by (simp add: render_line_def)

lemma render_line_core:
  "classify_line U (strip U raw) = K_core \<Longrightarrow>
   render_line U st raw =
     Inr ((emit (core_markup (strip U (drop 15 (strip U raw)))) (close_ul st))\<lparr>prev_kind := Some K_core\<rparr>)"
  using core_payload [of U "strip U raw"] by (simp add: render_line_def)

lemma render_line_p:
  "classify_line U (strip U raw) = K_p \<Longrightarrow>
   render_line U st raw =
     Inr ((if prev_kind st = Some K_h3 \<and> looks_bulleted (strip U raw)
           then emit (li_markup (strip U raw))
                  (if \<not> in_ul st then (emit ul_open st)\<lparr>in_ul := True\<rparr> else st)
           else emit (p_markup (strip U raw)) (close_ul st))\<lparr>prev_kind := Some K_p\<rparr>)"
  by (simp add: render_line_def Let_def)

lemma render_line_total: "\<exists>st'. render_line U st raw = Inr st'"
  by (cases "classify_line U (strip U raw)")
     (simp_all add: render_line_h2 render_line_h3 render_line_core render_line_p)

lemma render_line_prev:
  "render_line U st raw = Inr st' \<Longrightarrow> prev_kind st' = Some (classify_line U (strip U raw))"
  by (cases "classify_line U (strip U raw)")
     (auto simp add: render_line_h2 render_line_h3 render_line_core render_line_p)

lemma render_lines_append:
  "render_lines U st (xs @ ys) =
     (case render_lines U st xs of Inl e \<Rightarrow> Inl e | Inr st' \<Rightarrow> render_lines U st' ys)"
  by (induction xs arbitrary: st) (auto split: sum.splits)

lemma render_lines_total: "\<exists>st'. render_lines U st paras = Inr st'"
proof (induction paras arbitrary: st)
  case Nil
  show ?case by simp
next
  case (Cons raw rest)
  obtain st1 where "render_line U st raw = Inr st1"
    using render_line_total by blast
  with Cons show ?case by simp
qed

lemma prefix_sep:
  assumes "c \<notin> set pat"
  shows "prefix pat (a @ c # b) \<longleftrightarrow> prefix pat a"
proof
  assume "prefix pat (a @ c # b)"
  then consider "prefix pat a" | zs where "pat = a @ zs" "prefix zs (c # b)"
    by (auto simp: prefix_append)
  then show "prefix pat a"
  proof cases
    case 1
    then show ?thesis .
  next
    case 2
    with assms have "zs = []"
      by (cases zs) auto
    with 2 show ?thesis by simp
  qed
next
  assume "prefix pat a"
  then show "prefix pat (a @ c # b)"
    by (rule prefix_prefix)
qed

lemma occurrences_sep:
  assumes "c \<notin> set pat" "pat \<noteq> []"
  shows "occurrences pat (a @ c # b) = occurrences pat a + occurrences pat b"
proof (induction a)
  case Nil
  from assms have "\<not> prefix pat (c # b)"
    by (cases pat) auto
  with assms show ?case by simp
next
  case (Cons x a)
  have "prefix pat ((x # a) @ c # b) \<longleftrightarrow> prefix pat (x # a)"
    using assms(1) by (rule prefix_sep)
  with Cons show ?case by simp
qed

lemma occurrences_join:
  assumes "c \<notin> set pat" "pat \<noteq> []"
  shows "occurrences pat (join [c] xs) = sum_list (map (occurrences pat) xs)"
proof (induction "[c]" xs rule: join.induct)
  case 1
  from assms show ?case by simp
next
  case (2 x)
  show ?case by simp
next
  case (3 x y ys)
  then show ?case
    using occurrences_sep [OF assms, of x "join [c] (y # ys)"] by simp
qed

lemma occurrences_skip:
  "c \<notin> set a \<Longrightarrow> occurrences (c # p) (a @ b) = occurrences (c # p) b"
  by (induction a) auto

lemma escape_char_no_lt: "60 \<notin> set (escape_char c)"
  by (simp add: escape_char_def lit_def)

lemma escape_no_lt: "60 \<notin> set (escape s)"
  by (induction s) (simp_all add: escape_def escape_char_no_lt)

lemma occ_escape_open [simp]:
  "occurrences (60 # p) (escape s @ b) = occurrences (60 # p) b"
  by (rule occurrences_skip) (rule escape_no_lt)

lemma open_counts:
  "occurrences tag_open ul_open = 1"
  "occurrences tag_open ul_close = 0"
  "occurrences tag_open (h2_markup x) = 0"
  "occurrences tag_open (h3_markup x) = 0"
  "occurrences tag_open (core_markup x) = 0"
  "occurrences tag_open (li_markup x) = 0"
  "occurrences tag_open (p_markup x) = 0"
  by (simp_all add: tag_open_def ul_open_def ul_close_def h2_markup_def h3_markup_def
        core_markup_def li_markup_def p_markup_def lit_def)

lemma close_counts:
  "occurrences tag_close ul_open = 0"
  "occurrences tag_close ul_close = 1"
  "occurrences tag_close (h2_markup x) = 0"
  "occurrences tag_close (h3_markup x) = 0"
  "occurrences tag_close (core_markup x) = 0"
  "occurrences tag_close (li_markup x) = 0"
  "occurrences tag_close (p_markup x) = 0"
  by (simp_all add: tag_close_def ul_open_def ul_close_def h2_markup_def h3_markup_def
        core_markup_def li_markup_def p_markup_def lit_def)

lemma markup_count_simps [simp]:
  "markup_count pat [] = 0"
  "markup_count pat (x # xs) = occurrences pat x + markup_count pat xs"
  "markup_count pat (xs @ ys) = markup_count pat xs + markup_count pat ys"
  by (simp_all add: markup_count_def)

lemma out_emit [simp]: "out (emit x st) = out st @ [x]"
  and in_ul_emit [simp]: "in_ul (emit x st) = in_ul st"
  and prev_kind_emit [simp]: "prev_kind (emit x st) = prev_kind st"
  by (simp_all add: emit_def)

lemma out_close_ul [simp]: "out (close_ul st) = (if in_ul st then out st @ [ul_close] else out st)"
  and in_ul_close_ul [simp]: "in_ul (close_ul st) = False"
  and prev_kind_close_ul [simp]: "prev_kind (close_ul st) = prev_kind st"
  by (simp_all add: close_ul_def)

lemma balanced_step:
  assumes "balanced st" "render_line U st raw = Inr st'"
  shows "balanced st'"
proof (cases "classify_line U (strip U raw)")
  case K_h2
  with assms show ?thesis
    by (auto simp: render_line_h2 balanced_def open_counts close_counts)
next
  case K_h3
  with assms show ?thesis
    by (auto simp: render_line_h3 balanced_def open_counts close_counts)
next
  case K_core
  with assms show ?thesis
    by (auto simp: render_line_core balanced_def open_counts close_counts)
next
  case K_p
  with assms show ?thesis
    by (auto simp: render_line_p balanced_def open_counts close_counts split: if_splits)
qed

lemma balanced_steps:
  "balanced st \<Longrightarrow> render_lines U st paras = Inr st' \<Longrightarrow> balanced st'"
proof (induction paras arbitrary: st)
  case Nil
  then show ?case by simp
next
  case (Cons raw rest)
  then show ?case
    by (auto split: sum.splits dest: balanced_step)
qed

lemma balanced_init: "balanced init"
  by (simp add: balanced_def init_def)

lemma balanced_close:
  "balanced st \<Longrightarrow> markup_count tag_open (out (close_ul st)) = markup_count tag_close (out (close_ul st))"
  by (auto simp: balanced_def open_counts close_counts)

text \<open>
  Claim C3. Whatever the paragraphs, the renderer returns a fragment, and in it the opening
  tag of a bullet list occurs as often as the closing tag: every list that was opened is
  closed, the one still open at the end of the input included.
\<close>

theorem list_markup_balanced:
  "\<exists>html. build_content_html U paras = Inr html
      \<and> occurrences (lit ''<ul'') html = occurrences (lit ''</ul>'') html"
proof -
  obtain st where st: "render_lines U init paras = Inr st"
    using render_lines_total by blast
  then have "balanced st"
    using balanced_init balanced_steps by blast
  then have "markup_count tag_open (out (close_ul st)) = markup_count tag_close (out (close_ul st))"
    by (rule balanced_close)
  moreover have "occurrences tag_open (join (lit ''\<newline>'') xs) = markup_count tag_open xs" for xs
    unfolding markup_count_def
    using occurrences_join [of 10 tag_open xs] by (simp add: tag_open_def lit_def)
  moreover have "occurrences tag_close (join (lit ''\<newline>'') xs) = markup_count tag_close xs" for xs
    unfolding markup_count_def
    using occurrences_join [of 10 tag_close xs] by (simp add: tag_close_def lit_def)
  ultimately show ?thesis
    using st by (simp add: build_content_html_def build_content_pieces_def tag_open_def tag_close_def)
qed

theorem list_markup_balanced_witness:
  "\<exists>html. build_content_html ascii [lit ''Framework'', lit ''Builds trust.''] = Inr html
      \<and> occurrences (lit ''<ul'') html = occurrences (lit ''</ul>'') html"
  by (rule list_markup_balanced)

lemma single_item_lists_append:
  "single_item_lists a \<Longrightarrow> single_item_lists (a @ b) = single_item_lists b"
proof (induction a rule: single_item_lists.induct)
  case 1
  show ?case by simp
next
  case (2 x xs)
  show ?case
  proof (cases "x = ul_open")
    case True
    with "2.prems" obtain i c rest
      where xs: "xs = i # c # rest" "is_li i" "c = ul_close" "single_item_lists rest"
      by (cases xs; cases "tl xs") auto
    with True "2.IH"(1) have "single_item_lists (rest @ b) = single_item_lists b"
      by simp
    with True xs show ?thesis
      by simp
  next
    case False
    with "2.prems" "2.IH"(2) show ?thesis
      by simp
  qed
qed


lemma plain_pieces:
  "h2_markup x \<noteq> ul_open" "h2_markup x \<noteq> ul_close" "\<not> is_li (h2_markup x)"
  "h3_markup x \<noteq> ul_open" "h3_markup x \<noteq> ul_close" "\<not> is_li (h3_markup x)"
  "core_markup x \<noteq> ul_open" "core_markup x \<noteq> ul_close" "\<not> is_li (core_markup x)"
  "p_markup x \<noteq> ul_open" "p_markup x \<noteq> ul_close" "\<not> is_li (p_markup x)"
  by (simp_all add: h2_markup_def h3_markup_def core_markup_def p_markup_def ul_open_def
        ul_close_def is_li_def lit_def)

lemma is_li_markup: "is_li (li_markup x)"
  by (simp add: is_li_def li_markup_def)

lemma single_item_lists_plain:
  "single_item_lists pre \<Longrightarrow> x \<noteq> ul_open \<Longrightarrow> x \<noteq> ul_close \<Longrightarrow> \<not> is_li x
   \<Longrightarrow> single_item_lists (pre @ [x])"
  by (simp add: single_item_lists_append)

lemma single_item_lists_closed:
  "single_item_lists pre \<Longrightarrow> single_item_lists (pre @ [ul_open, li_markup x, ul_close])"
  by (simp add: single_item_lists_append is_li_markup)

lemma lists_ok_close: "lists_ok st \<Longrightarrow> single_item_lists (out (close_ul st))"
  by (auto simp: lists_ok_def single_item_lists_closed split: if_splits)

lemma lists_ok_plain:
  assumes "lists_ok st" "x \<noteq> ul_open" "x \<noteq> ul_close" "\<not> is_li x"
  shows "lists_ok ((emit x (close_ul st))\<lparr>prev_kind := k\<rparr>)"
proof -
  have "single_item_lists (out (close_ul st) @ [x])"
    using assms by (intro single_item_lists_plain lists_ok_close)
  then show ?thesis
    by (simp add: lists_ok_def)
qed

lemma lists_ok_step:
  assumes "lists_ok st" "render_line U st raw = Inr st'"
  shows "lists_ok st'"
proof (cases "classify_line U (strip U raw)")
  case K_h2
  with assms show ?thesis
    by (auto simp: render_line_h2 plain_pieces intro!: lists_ok_plain)
next
  case K_h3
  with assms show ?thesis
    by (auto simp: render_line_h3 plain_pieces intro!: lists_ok_plain)
next
  case K_core
  with assms show ?thesis
    by (auto simp: render_line_core plain_pieces intro!: lists_ok_plain)
next
  case K_p
  show ?thesis
  proof (cases "prev_kind st = Some K_h3 \<and> looks_bulleted (strip U raw)")
    case True
    with assms(1) have "\<not> in_ul st" and "single_item_lists (out st)"
      by (auto simp: lists_ok_def split: if_splits)
    with True K_p assms(2) show ?thesis
      by (auto simp: render_line_p lists_ok_def)
  next
    case False
    with K_p assms show ?thesis
      by (auto simp: render_line_p plain_pieces intro!: lists_ok_plain)
  qed
qed

lemma lists_ok_steps:
  "lists_ok st \<Longrightarrow> render_lines U st paras = Inr st' \<Longrightarrow> lists_ok st'"
proof (induction paras arbitrary: st)
  case Nil
  then show ?case by simp
next
  case (Cons raw rest)
  then show ?case
    by (auto split: sum.splits dest: lists_ok_step)
qed

text \<open>
  Claim C10. Whatever the paragraphs, in the pieces of the rendered fragment every opened
  bullet list holds exactly one item and is closed right after it: a list never holds two
  items.
\<close>

theorem lists_hold_one_item:
  "\<exists>pieces. build_content_pieces U paras = Inr pieces
      \<and> build_content_html U paras = Inr (join (lit ''\<newline>'') pieces)
      \<and> single_item_lists pieces"
proof -
  obtain st where st: "render_lines U init paras = Inr st"
    using render_lines_total by blast
  have "lists_ok init"
    by (simp add: lists_ok_def init_def)
  then have "lists_ok st"
    using st by (rule lists_ok_steps)
  then have "single_item_lists (out (close_ul st))"
    by (rule lists_ok_close)
  with st show ?thesis
    by (simp add: build_content_html_def build_content_pieces_def)
qed

theorem lists_hold_one_item_witness:
  "\<exists>pieces. build_content_pieces ascii [lit ''Framework'', lit ''Builds trust.''] = Inr pieces
      \<and> build_content_html ascii [lit ''Framework'', lit ''Builds trust.'']
            = Inr (join (lit ''\<newline>'') pieces)
      \<and> single_item_lists pieces"
  by (rule lists_hold_one_item)

lemma render_lines_prev:
  "render_lines U st pre = Inr st' \<Longrightarrow>
   prev_kind st' = (if pre = [] then prev_kind st else Some (classify_line U (strip U (last pre))))"
proof (induction pre arbitrary: st)
  case Nil
  then show ?case by simp
next
  case (Cons raw rest)
  from Cons.prems obtain st1
    where first: "render_line U st raw = Inr st1" and others: "render_lines U st1 rest = Inr st'"
    by (auto split: sum.splits)
  from Cons.IH [OF others] render_line_prev [OF first] show ?case
    by simp
qed

lemma suffix_single: "suffix [c] l \<longleftrightarrow> l \<noteq> [] \<and> last l = c"
  by (cases l rule: rev_cases) auto

lemma looks_bulleted_iff:
  "looks_bulleted l \<longleftrightarrow> length l \<le> 110 \<and> l \<noteq> [] \<and> last l \<in> {46, 41, 8212}"
proof -
  have endings: "bullet_endings = [[46], [41], [8212]]"
    by (simp add: bullet_endings_def lit_def)
  show ?thesis
    by (auto simp add: looks_bulleted_def endswith_def suffix_single endings)
qed

lemma render_line_out_prefix:
  assumes "render_line U st raw = Inr st'"
  shows "\<exists>more. out st' = out st @ more"
proof (cases "classify_line U (strip U raw)")
  case K_h2
  with assms show ?thesis
    by (auto simp: render_line_h2)
next
  case K_h3
  with assms show ?thesis
    by (auto simp: render_line_h3)
next
  case K_core
  with assms show ?thesis
    by (auto simp: render_line_core)
next
  case K_p
  with assms show ?thesis
    by (auto simp: render_line_p)
qed

lemma render_lines_out_prefix:
  "render_lines U st paras = Inr st' \<Longrightarrow> \<exists>more. out st' = out st @ more"
proof (induction paras arbitrary: st)
  case Nil
  then show ?case by simp
next
  case (Cons raw rest)
  from Cons.prems obtain st1
    where first: "render_line U st raw = Inr st1" and others: "render_lines U st1 rest = Inr st'"
    by (auto split: sum.splits)
  from render_line_out_prefix [OF first] obtain a where "out st1 = out st @ a"
    by blast
  moreover from Cons.IH [OF others] obtain b where "out st' = out st1 @ b"
    by blast
  ultimately show ?case
    by simp
qed

lemma markup_literals:
  \<open>ul_open = lit ''<ul class="bul">''\<close>
  \<open>ul_close = lit ''</ul>''\<close>
  \<open>li_markup line = lit ''<li>'' @ escape line @ lit ''</li>''\<close>
  \<open>p_markup line = lit ''<p class="p">'' @ escape line @ lit ''</p>''\<close>
  by (simp_all add: ul_open_def ul_close_def li_markup_def p_markup_def)

text \<open>
  Claim C2. Let a line classified as paragraph candidate follow the paragraphs \<open>pre\<close> and
  be followed by the paragraphs \<open>post\<close>. In the fragment that the renderer returns for the
  whole input, the pieces rendered for \<open>pre\<close> are followed by the line as a list item
  exactly when the line before it was classified as a minor heading and its stripped text
  has at most 110 characters and ends with a full stop, a closing parenthesis or an
  em-dash. As a list item it is preceded by the opening tag of the list unless a list is
  open; otherwise the closing tag is emitted for an open list and the line is a plain
  paragraph.
\<close>

theorem bullet_decision:
  assumes "classify_line U (strip U raw) = K_p"
  shows \<open>\<exists>st st' after.
      render_lines U init pre = Inr st
    \<and> render_lines U init (pre @ [raw]) = Inr st'
    \<and> (let line = strip U raw;
           bullet = ((pre \<noteq> [] \<and> classify_line U (strip U (last pre)) = K_h3)
                     \<and> (length line \<le> 110 \<and> line \<noteq> [] \<and> last line \<in> {46, 41, 8212}));
           emitted =
             (if bullet
              then (if in_ul st then [] else [lit ''<ul class="bul">''])
                     @ [lit ''<li>'' @ escape line @ lit ''</li>'']
              else (if in_ul st then [lit ''</ul>''] else [])
                     @ [lit ''<p class="p">'' @ escape line @ lit ''</p>''])
       in in_ul st' = bullet
          \<and> out st' = out st @ emitted
          \<and> build_content_pieces U pre = Inr (out st @ (if in_ul st then [lit ''</ul>''] else []))
          \<and> build_content_pieces U (pre @ raw # post) = Inr (out st @ emitted @ after)
          \<and> build_content_html U (pre @ raw # post)
              = Inr (join (lit ''\<newline>'') (out st @ emitted @ after)))\<close>
proof -
  obtain st where st: "render_lines U init pre = Inr st"
    using render_lines_total by blast
  then have prev: "prev_kind st = Some K_h3 \<longleftrightarrow> pre \<noteq> [] \<and> classify_line U (strip U (last pre)) = K_h3"
    using render_lines_prev [OF st] by (simp add: init_def)
  obtain st' where st': "render_line U st raw = Inr st'"
    using render_line_total by blast
  have step: "render_lines U init (pre @ [raw]) = Inr st'"
    using st st' by (simp add: render_lines_append)
  from st' assms have eq: "st' =
      (if prev_kind st = Some K_h3 \<and> looks_bulleted (strip U raw)
       then emit (li_markup (strip U raw))
              (if \<not> in_ul st then (emit ul_open st)\<lparr>in_ul := True\<rparr> else st)
       else emit (p_markup (strip U raw)) (close_ul st))\<lparr>prev_kind := Some K_p\<rparr>"
    by (simp add: render_line_p)
  define emitted where "emitted =
      (if prev_kind st = Some K_h3 \<and> looks_bulleted (strip U raw)
       then (if in_ul st then [] else [ul_open]) @ [li_markup (strip U raw)]
       else (if in_ul st then [ul_close] else []) @ [p_markup (strip U raw)])"
  have open': "in_ul st' = (prev_kind st = Some K_h3 \<and> looks_bulleted (strip U raw))"
    by (simp add: eq)
  have grown: "out st' = out st @ emitted"
    by (simp add: eq emitted_def)
  obtain st'' where st'': "render_lines U st' post = Inr st''"
    using render_lines_total by blast
  then obtain more where more: "out st'' = out st' @ more"
    using render_lines_out_prefix by blast
  have whole: "render_lines U init (pre @ raw # post) = Inr st''"
    using st st' st'' by (simp add: render_lines_append)
  define after where "after = more @ (if in_ul st'' then [ul_close] else [])"
  have pieces: "build_content_pieces U (pre @ raw # post) = Inr (out st @ emitted @ after)"
    using whole more grown by (simp add: build_content_pieces_def after_def)
  then have html: "build_content_html U (pre @ raw # post)
      = Inr (join (lit ''\<newline>'') (out st @ emitted @ after))"
    by (simp add: build_content_html_def)
  have before: "build_content_pieces U pre = Inr (out st @ (if in_ul st then [ul_close] else []))"
    using st by (simp add: build_content_pieces_def)
  have shape: "emitted =
      (if (pre \<noteq> [] \<and> classify_line U (strip U (last pre)) = K_h3)
            \<and> (length (strip U raw) \<le> 110 \<and> strip U raw \<noteq> [] \<and> last (strip U raw) \<in> {46, 41, 8212})
       then (if in_ul st then [] else [ul_open]) @ [li_markup (strip U raw)]
       else (if in_ul st then [ul_close] else []) @ [p_markup (strip U raw)])"
    unfolding emitted_def prev looks_bulleted_iff by (rule refl)
  have bullet: "in_ul st' =
      ((pre \<noteq> [] \<and> classify_line U (strip U (last pre)) = K_h3)
        \<and> (length (strip U raw) \<le> 110 \<and> strip U raw \<noteq> [] \<and> last (strip U raw) \<in> {46, 41, 8212}))"
    unfolding open' prev looks_bulleted_iff by (rule refl)
  show ?thesis
    unfolding Let_def markup_literals [symmetric]
    using st step bullet grown before pieces html unfolding shape
    by blast
qed

theorem bullet_decision_witness:
  \<open>classify_line ascii (strip ascii (lit ''Builds trust.'')) = K_p
   \<and> (\<exists>st st' after.
      render_lines ascii init [lit ''Framework''] = Inr st
    \<and> render_lines ascii init ([lit ''Framework''] @ [lit ''Builds trust.'']) = Inr st'
    \<and> (let line = strip ascii (lit ''Builds trust.'');
           bullet = (([lit ''Framework''] \<noteq> [] \<and> classify_line ascii (strip ascii (last [lit ''Framework''])) = K_h3)
                     \<and> (length line \<le> 110 \<and> line \<noteq> [] \<and> last line \<in> {46, 41, 8212}));
           emitted =
             (if bullet
              then (if in_ul st then [] else [lit ''<ul class="bul">''])
                     @ [lit ''<li>'' @ escape line @ lit ''</li>'']
              else (if in_ul st then [lit ''</ul>''] else [])
                     @ [lit ''<p class="p">'' @ escape line @ lit ''</p>''])
       in in_ul st' = bullet
          \<and> out st' = out st @ emitted
          \<and> build_content_pieces ascii [lit ''Framework''] = Inr (out st @ (if in_ul st then [lit ''</ul>''] else []))
          \<and> build_content_pieces ascii ([lit ''Framework''] @ lit ''Builds trust.'' # [lit ''Conclusion'']) = Inr (out st @ emitted @ after)
          \<and> build_content_html ascii ([lit ''Framework''] @ lit ''Builds trust.'' # [lit ''Conclusion''])
              = Inr (join (lit ''\<newline>'') (out st @ emitted @ after))))\<close>
proof (rule conjI)
  show h: "classify_line ascii (strip ascii (lit ''Builds trust.'')) = K_p"
    by code_simp
  show \<open>\<exists>st st' after.
      render_lines ascii init [lit ''Framework''] = Inr st
    \<and> render_lines ascii init ([lit ''Framework''] @ [lit ''Builds trust.'']) = Inr st'
    \<and> (let line = strip ascii (lit ''Builds trust.'');
           bullet = (([lit ''Framework''] \<noteq> [] \<and> classify_line ascii (strip ascii (last [lit ''Framework''])) = K_h3)
                     \<and> (length line \<le> 110 \<and> line \<noteq> [] \<and> last line \<in> {46, 41, 8212}));
           emitted =
             (if bullet
              then (if in_ul st then [] else [lit ''<ul class="bul">''])
                     @ [lit ''<li>'' @ escape line @ lit ''</li>'']
              else (if in_ul st then [lit ''</ul>''] else [])
                     @ [lit ''<p class="p">'' @ escape line @ lit ''</p>''])
       in in_ul st' = bullet
          \<and> out st' = out st @ emitted
          \<and> build_content_pieces ascii [lit ''Framework''] = Inr (out st @ (if in_ul st then [lit ''</ul>''] else []))
          \<and> build_content_pieces ascii ([lit ''Framework''] @ lit ''Builds trust.'' # [lit ''Conclusion'']) = Inr (out st @ emitted @ after)
          \<and> build_content_html ascii ([lit ''Framework''] @ lit ''Builds trust.'' # [lit ''Conclusion''])
              = Inr (join (lit ''\<newline>'') (out st @ emitted @ after)))\<close>
    by (rule bullet_decision [OF h])
qed

text \<open>
  Claim C1. On the five paragraphs of the scenario the renderer opens the list for the first
  short line after the heading and closes it before the second: the second short line is a
  plain paragraph, not a second item of the list.
\<close>

theorem bullet_run_scenario:
  \<open>build_content_pieces ascii
      [lit ''Module 1'', lit ''Framework'', lit ''Builds trust.'', lit ''Builds trust again.'',
       lit ''Conclusion'']
    = Inr [lit ''<h2 class="sec">Module 1</h2>'',
           lit ''<h3 class="subsec">Framework</h3>'',
           lit ''<ul class="bul">'',
           lit ''<li>Builds trust.</li>'',
           lit ''</ul>'',
           lit ''<p class="p">Builds trust again.</p>'',
           lit ''<h3 class="subsec">Conclusion</h3>'']\<close>
  by code_simp

lemma contains_sublist: "contains s pat \<longleftrightarrow> sublist pat s"
proof (induction s)
  case Nil
  show ?case by simp
next
  case (Cons c cs)
  then show ?case
    by (simp add: sublist_Cons_right)
qed

lemma marker_in_iff:
  "marker_in U line ms \<longleftrightarrow> (\<exists>m\<in>set ms. sublist (lower U m) (lower U line))"
  by (induction ms) (simp_all add: contains_sublist)

lemma cut_scan_none:
  "\<forall>l\<in>set rest. \<not> marker_in U l ms \<Longrightarrow> cut_scan U paras ms i rest = paras"
  by (induction rest arbitrary: i) simp_all

lemma cut_scan_first:
  "\<forall>l\<in>set xs. \<not> marker_in U l ms \<Longrightarrow> marker_in U l ms \<Longrightarrow>
   cut_scan U paras ms i (xs @ l # ys) = take (i + length xs) paras"
  by (induction xs arbitrary: i) simp_all

lemma cut_section_first:
  assumes "i < length paras" "marker_in U (paras ! i) ms"
    and "\<forall>j<i. \<not> marker_in U (paras ! j) ms"
  shows "cut_section U paras (Some ms) = take i paras"
proof -
  have split: "paras = take i paras @ paras ! i # drop (Suc i) paras"
    using assms(1) by (simp add: id_take_nth_drop)
  have before: "\<forall>l\<in>set (take i paras). \<not> marker_in U l ms"
    using assms(1,3) by (auto simp: in_set_conv_nth)
  have "cut_scan U paras ms 0 (take i paras @ paras ! i # drop (Suc i) paras)
          = take (0 + length (take i paras)) paras"
    using before assms(2) by (rule cut_scan_first)
  with split assms(1) have "cut_scan U paras ms 0 paras = take i paras"
    by simp
  moreover from assms(2) have "ms \<noteq> []"
    by auto
  ultimately show ?thesis
    by (simp add: cut_section_def)
qed

lemma first_hit:
  assumes "\<exists>l\<in>set paras. P l"
  obtains i where "i < length paras" "P (paras ! i)" "\<forall>j<i. \<not> P (paras ! j)"
proof -
  define i where "i = (LEAST k. k < length paras \<and> P (paras ! k))"
  from assms obtain k where k: "k < length paras \<and> P (paras ! k)"
    by (auto simp: in_set_conv_nth)
  then have "i < length paras \<and> P (paras ! i)"
    unfolding i_def by (rule LeastI)
  moreover have "\<not> P (paras ! j)" if "j < i" for j
  proof
    assume "P (paras ! j)"
    with that \<open>i < length paras \<and> P (paras ! i)\<close> have "j < length paras \<and> P (paras ! j)"
      by simp
    then have "i \<le> j"
      unfolding i_def by (rule Least_le)
    with that show False by simp
  qed
  ultimately show thesis
    using that by blast
qed

text \<open>
  Claim C6. Without markers (none configured, or an empty list), or when no paragraph
  contains a marker, the clipper returns the paragraphs unchanged. Otherwise it returns the
  paragraphs before the first one that contains some marker, both lowered, whichever marker
  that is.
\<close>

theorem cut_section_first_marker:
  fixes U :: unicode and paras :: "ustring list" and end_markers :: "ustring list option"
  shows "((end_markers = None \<or> end_markers = Some []
           \<or> (\<exists>ms. end_markers = Some ms
                 \<and> (\<forall>line\<in>set paras. \<forall>m\<in>set ms. \<not> sublist (lower U m) (lower U line))))
          \<longrightarrow> cut_section U paras end_markers = paras)
       \<and> (\<not> (end_markers = None \<or> end_markers = Some []
           \<or> (\<exists>ms. end_markers = Some ms
                 \<and> (\<forall>line\<in>set paras. \<forall>m\<in>set ms. \<not> sublist (lower U m) (lower U line))))
          \<longrightarrow> (\<exists>ms i. end_markers = Some ms \<and> i < length paras
                 \<and> (\<exists>m\<in>set ms. sublist (lower U m) (lower U (paras ! i)))
                 \<and> (\<forall>j<i. \<forall>m\<in>set ms. \<not> sublist (lower U m) (lower U (paras ! j)))
                 \<and> cut_section U paras end_markers = take i paras))"
proof (intro conjI impI)
  assume "end_markers = None \<or> end_markers = Some []
           \<or> (\<exists>ms. end_markers = Some ms
                 \<and> (\<forall>line\<in>set paras. \<forall>m\<in>set ms. \<not> sublist (lower U m) (lower U line)))"
  then show "cut_section U paras end_markers = paras"
    by (auto simp: cut_section_def marker_in_iff intro!: cut_scan_none)
next
  assume no: "\<not> (end_markers = None \<or> end_markers = Some []
           \<or> (\<exists>ms. end_markers = Some ms
                 \<and> (\<forall>line\<in>set paras. \<forall>m\<in>set ms. \<not> sublist (lower U m) (lower U line))))"
  then obtain ms where ms: "end_markers = Some ms"
    by (cases end_markers) auto
  with no have "\<exists>l\<in>set paras. marker_in U l ms"
    by (auto simp: marker_in_iff)
  then obtain i where i: "i < length paras" "marker_in U (paras ! i) ms"
      "\<forall>j<i. \<not> marker_in U (paras ! j) ms"
    by (rule first_hit)
  then have "cut_section U paras (Some ms) = take i paras"
    by (rule cut_section_first)
  with ms i show "\<exists>ms i. end_markers = Some ms \<and> i < length paras
                 \<and> (\<exists>m\<in>set ms. sublist (lower U m) (lower U (paras ! i)))
                 \<and> (\<forall>j<i. \<forall>m\<in>set ms. \<not> sublist (lower U m) (lower U (paras ! j)))
                 \<and> cut_section U paras end_markers = take i paras"
    by (auto simp: marker_in_iff)
qed

theorem cut_section_first_marker_witness:
  "cut_section ascii [lit ''Intro'', lit ''The Advanced Sketch Platform'', lit ''Lesson''] None
     = [lit ''Intro'', lit ''The Advanced Sketch Platform'', lit ''Lesson'']
   \<and> cut_section ascii [lit ''Intro'', lit ''The Advanced Sketch Platform'', lit ''Lesson'']
         (Some [lit ''THE ADVANCED SKETCH''])
     = [lit ''Intro'']"
proof -
  let ?paras = "[lit ''Intro'', lit ''The Advanced Sketch Platform'', lit ''Lesson'']"
  let ?ms = "[lit ''THE ADVANCED SKETCH'']"
  have first: "cut_section ascii ?paras None = ?paras"
    using cut_section_first_marker [of None ?paras ascii] by simp
  have hit: "sublist (lower ascii (lit ''THE ADVANCED SKETCH'')) (lower ascii (?paras ! 1))"
    by code_simp
  have miss: "\<not> sublist (lower ascii (lit ''THE ADVANCED SKETCH'')) (lower ascii (?paras ! 0))"
    by code_simp
  have "\<not> (Some ?ms = None \<or> Some ?ms = Some []
           \<or> (\<exists>ms. Some ?ms = Some ms
                 \<and> (\<forall>line\<in>set ?paras. \<forall>m\<in>set ms. \<not> sublist (lower ascii m) (lower ascii line))))"
    using hit by auto
  with cut_section_first_marker [of "Some ?ms" ?paras ascii]
  obtain i where i: "i < length ?paras"
      "sublist (lower ascii (lit ''THE ADVANCED SKETCH'')) (lower ascii (?paras ! i))"
      "\<forall>j<i. \<not> sublist (lower ascii (lit ''THE ADVANCED SKETCH'')) (lower ascii (?paras ! j))"
      "cut_section ascii ?paras (Some ?ms) = take i ?paras"
    by auto
  from i(3) hit have "i \<le> 1"
    by (meson not_le_imp_less)
  moreover from i(2) miss have "i \<noteq> 0"
    by (intro notI) simp
  ultimately have "i = 1"
    by simp
  with i(4) first show ?thesis
    by simp
qed

text \<open>
  Claim C7, amended. When the text of paragraph \<open>i\<close> is one of the markers, the clipper
  returns the paragraphs before some index up to \<open>i\<close>; it returns exactly the paragraphs
  before \<open>i\<close> when no earlier paragraph contains a marker.
\<close>

theorem cut_section_exact_marker:
  assumes "i < length paras" "paras ! i \<in> set ms"
  shows "(\<exists>j\<le>i. cut_section U paras (Some ms) = take j paras)
       \<and> ((\<forall>j<i. \<forall>m\<in>set ms. \<not> sublist (lower U m) (lower U (paras ! j)))
            \<longrightarrow> cut_section U paras (Some ms) = take i paras)"
proof -
  from assms(2) have hit: "marker_in U (paras ! i) ms"
    by (auto simp: marker_in_iff)
  with assms(1) have "\<exists>l\<in>set paras. marker_in U l ms"
    by auto
  then obtain k where k: "k < length paras" "marker_in U (paras ! k) ms"
      "\<forall>j<k. \<not> marker_in U (paras ! j) ms"
    by (rule first_hit)
  from k(3) hit have "k \<le> i"
    by (meson not_le_imp_less)
  moreover from k have "cut_section U paras (Some ms) = take k paras"
    by (rule cut_section_first)
  ultimately have first: "\<exists>j\<le>i. cut_section U paras (Some ms) = take j paras"
    by blast
  have "cut_section U paras (Some ms) = take i paras"
    if "\<forall>j<i. \<forall>m\<in>set ms. \<not> sublist (lower U m) (lower U (paras ! j))"
    using assms(1) hit that by (intro cut_section_first) (simp_all add: marker_in_iff)
  with first show ?thesis
    by blast
qed

theorem cut_section_exact_marker_witness:
  "(1::nat) < length [lit ''Intro'', lit ''Art'', lit ''Drawing'']
   \<and> [lit ''Intro'', lit ''Art'', lit ''Drawing''] ! 1 \<in> set [lit ''Art'']
   \<and> cut_section ascii [lit ''Intro'', lit ''Art'', lit ''Drawing''] (Some [lit ''Art''])
       = [lit ''Intro'']"
proof -
  let ?paras = "[lit ''Intro'', lit ''Art'', lit ''Drawing'']"
  have len: "(1::nat) < length ?paras"
    by simp
  have marker: "?paras ! 1 \<in> set [lit ''Art'']"
    by simp
  have "\<not> sublist (lower ascii (lit ''Art'')) (lower ascii (lit ''Intro''))"
    by code_simp
  then have before: "\<forall>j<1. \<forall>m\<in>set [lit ''Art'']. \<not> sublist (lower ascii m) (lower ascii (?paras ! j))"
    by simp
  from cut_section_exact_marker [OF len marker, of ascii] before
  have "cut_section ascii ?paras (Some [lit ''Art'']) = take 1 ?paras"
    by blast
  with len marker show ?thesis
    by simp
qed

text \<open>
  Claim C7 as stated fails: the marker is the text of the second paragraph, but the first
  paragraph contains it too, and nothing is left.
\<close>

theorem cut_section_exact_marker_counterexample:
  "[lit ''Overview of Art'', lit ''Art''] ! 1 \<in> set [lit ''Art'']
   \<and> cut_section ascii [lit ''Overview of Art'', lit ''Art''] (Some [lit ''Art'']) = []
   \<and> take 1 [lit ''Overview of Art'', lit ''Art''] = [lit ''Overview of Art'']"
  by code_simp

lemma digits_b_run:
  "ds \<noteq> [] \<Longrightarrow> \<forall>c\<in>set ds. isdecimal U c \<Longrightarrow> boundary U (last ds) rest
   \<Longrightarrow> digits_b U (ds @ rest)"
proof (induction ds)
  case Nil
  then show ?case by simp
next
  case (Cons c ds)
  then show ?case
    by (cases ds) auto
qed

lemma spaces_digits_b_run:
  "ws \<noteq> [] \<Longrightarrow> \<forall>c\<in>set ws. isspace U c \<Longrightarrow> digits_b U t
   \<Longrightarrow> spaces_digits_b U (ws @ t)"
proof (induction ws)
  case Nil
  then show ?case by simp
next
  case (Cons c ws)
  then show ?case
    by (cases ws) auto
qed

lemma digits_b_split:
  "digits_b U s \<Longrightarrow>
   \<exists>ds rest. s = ds @ rest \<and> ds \<noteq> [] \<and> (\<forall>c\<in>set ds. isdecimal U c) \<and> boundary U (last ds) rest"
proof (induction s)
  case Nil
  then show ?case by simp
next
  case (Cons c cs)
  then have c: "isdecimal U c" and more: "boundary U c cs \<or> digits_b U cs"
    by simp_all
  show ?case
  proof (cases "boundary U c cs")
    case True
    with c have "c # cs = [c] @ cs \<and> [c] \<noteq> [] \<and> (\<forall>d\<in>set [c]. isdecimal U d)
        \<and> boundary U (last [c]) cs"
      by simp
    then show ?thesis
      by blast
  next
    case False
    with more Cons.IH obtain ds rest
      where "cs = ds @ rest" "ds \<noteq> []" "\<forall>d\<in>set ds. isdecimal U d" "boundary U (last ds) rest"
      by blast
    with c have "c # cs = (c # ds) @ rest \<and> c # ds \<noteq> [] \<and> (\<forall>d\<in>set (c # ds). isdecimal U d)
        \<and> boundary U (last (c # ds)) rest"
      by simp
    then show ?thesis
      by blast
  qed
qed

lemma spaces_digits_b_split:
  "spaces_digits_b U s \<Longrightarrow>
   \<exists>ws ds rest. s = ws @ ds @ rest \<and> ws \<noteq> [] \<and> (\<forall>c\<in>set ws. isspace U c)
      \<and> ds \<noteq> [] \<and> (\<forall>c\<in>set ds. isdecimal U c) \<and> boundary U (last ds) rest"
proof (induction s)
  case Nil
  then show ?case by simp
next
  case (Cons c cs)
  then have c: "isspace U c" and more: "digits_b U cs \<or> spaces_digits_b U cs"
    by simp_all
  show ?case
  proof (cases "digits_b U cs")
    case True
    then obtain ds rest
      where "cs = ds @ rest" "ds \<noteq> []" "\<forall>d\<in>set ds. isdecimal U d" "boundary U (last ds) rest"
      using digits_b_split by blast
    with c have "c # cs = [c] @ ds @ rest \<and> [c] \<noteq> [] \<and> (\<forall>d\<in>set [c]. isspace U d)
        \<and> ds \<noteq> [] \<and> (\<forall>d\<in>set ds. isdecimal U d) \<and> boundary U (last ds) rest"
      by simp
    then show ?thesis
      by blast
  next
    case False
    with more Cons.IH obtain ws ds rest
      where "cs = ws @ ds @ rest" "ws \<noteq> []" "\<forall>d\<in>set ws. isspace U d"
        "ds \<noteq> []" "\<forall>d\<in>set ds. isdecimal U d" "boundary U (last ds) rest"
      by blast
    with c have "c # cs = (c # ws) @ ds @ rest \<and> c # ws \<noteq> [] \<and> (\<forall>d\<in>set (c # ws). isspace U d)
        \<and> ds \<noteq> [] \<and> (\<forall>d\<in>set ds. isdecimal U d) \<and> boundary U (last ds) rest"
      by simp
    then show ?thesis
      by blast
  qed
qed

lemma module_pattern_matches:
  assumes "w = lit ''MODULE'' \<or> w = lit ''Module''"
    and "ws \<noteq> []" and "\<forall>c\<in>set ws. isspace U c"
    and "ds \<noteq> []" and "\<forall>c\<in>set ds. isdecimal U c"
    and "boundary U (last ds) rest"
  shows "match_module U (w @ ws @ ds @ rest)"
proof -
  from assms(1) have len: "length w = 6"
    by (auto simp: lit_def)
  have "digits_b U (ds @ rest)"
    using assms(4-6) by (rule digits_b_run)
  with assms(2,3) have "spaces_digits_b U (ws @ ds @ rest)"
    by (rule spaces_digits_b_run)
  with len have "spaces_digits_b U (drop 6 (w @ ws @ ds @ rest))"
    by simp
  moreover from assms(1)
  have "prefix (lit ''MODULE'') (w @ ws @ ds @ rest) \<or> prefix (lit ''Module'') (w @ ws @ ds @ rest)"
    by auto
  ultimately show ?thesis
    by (simp add: match_module_def)
qed

lemma match_module_iff:
  "match_module U line \<longleftrightarrow>
     (\<exists>w ws ds rest. line = w @ ws @ ds @ rest \<and> (w = lit ''MODULE'' \<or> w = lit ''Module'')
        \<and> ws \<noteq> [] \<and> (\<forall>c\<in>set ws. isspace U c)
        \<and> ds \<noteq> [] \<and> (\<forall>c\<in>set ds. isdecimal U c) \<and> boundary U (last ds) rest)"
proof
  assume m: "match_module U line"
  then obtain w where w: "w = lit ''MODULE'' \<or> w = lit ''Module''" and pre: "prefix w line"
    by (auto simp: match_module_def)
  from w have "length w = 6"
    by (auto simp: lit_def)
  with pre have line: "line = w @ drop 6 line"
    by (auto simp: prefix_def)
  from m have "spaces_digits_b U (drop 6 line)"
    by (simp add: match_module_def)
  then obtain ws ds rest
    where "drop 6 line = ws @ ds @ rest" "ws \<noteq> []" "\<forall>c\<in>set ws. isspace U c"
      "ds \<noteq> []" "\<forall>c\<in>set ds. isdecimal U c" "boundary U (last ds) rest"
    using spaces_digits_b_split by blast
  with line w show "\<exists>w ws ds rest. line = w @ ws @ ds @ rest
        \<and> (w = lit ''MODULE'' \<or> w = lit ''Module'')
        \<and> ws \<noteq> [] \<and> (\<forall>c\<in>set ws. isspace U c)
        \<and> ds \<noteq> [] \<and> (\<forall>c\<in>set ds. isdecimal U c) \<and> boundary U (last ds) rest"
    by metis
next
  assume "\<exists>w ws ds rest. line = w @ ws @ ds @ rest
        \<and> (w = lit ''MODULE'' \<or> w = lit ''Module'')
        \<and> ws \<noteq> [] \<and> (\<forall>c\<in>set ws. isspace U c)
        \<and> ds \<noteq> [] \<and> (\<forall>c\<in>set ds. isdecimal U c) \<and> boundary U (last ds) rest"
  then show "match_module U line"
    using module_pattern_matches by blast
qed

lemma literal_b_iff:
  "l \<noteq> [] \<Longrightarrow> literal_b U l s \<longleftrightarrow> (\<exists>rest. s = l @ rest \<and> boundary U (last l) rest)"
  by (auto simp: literal_b_def prefix_def)

lemma classify_h2_iff:
  "classify_line U line = K_h2 \<longleftrightarrow>
     match_module U line \<or> literal_b U (lit ''Executive Summary'') line
       \<or> literal_b U (lit ''EXECUTIVE SUMMARY'') line"
  by (simp add: classify_line_def)

text \<open>
  Claim C4, amended. A line that starts with \<^verbatim>\<open>MODULE\<close> or \<^verbatim>\<open>Module\<close>, spelled so,
  followed by one or more whitespace characters and one or more decimal digits that end at
  a word boundary, is classified as a major heading, whatever follows; the classifier sees
  nothing but the line. Only these two spellings match: a line is a major heading exactly
  when it has this form or starts with \<^verbatim>\<open>Executive Summary\<close> or \<^verbatim>\<open>EXECUTIVE SUMMARY\<close> at a
  word boundary, so a line that starts with none of the four words is no major heading.
\<close>

theorem classify_module_heading:
  "((w = lit ''MODULE'' \<or> w = lit ''Module'')
      \<and> ws \<noteq> [] \<and> (\<forall>c\<in>set ws. isspace U c)
      \<and> ds \<noteq> [] \<and> (\<forall>c\<in>set ds. isdecimal U c) \<and> boundary U (last ds) rest
     \<longrightarrow> classify_line U (w @ ws @ ds @ rest) = K_h2)
   \<and> (classify_line U line = K_h2 \<longleftrightarrow>
        (\<exists>w ws ds rest. line = w @ ws @ ds @ rest
           \<and> (w = lit ''MODULE'' \<or> w = lit ''Module'')
           \<and> ws \<noteq> [] \<and> (\<forall>c\<in>set ws. isspace U c)
           \<and> ds \<noteq> [] \<and> (\<forall>c\<in>set ds. isdecimal U c) \<and> boundary U (last ds) rest)
        \<or> (\<exists>rest. line = lit ''Executive Summary'' @ rest \<and> boundary U 121 rest)
        \<or> (\<exists>rest. line = lit ''EXECUTIVE SUMMARY'' @ rest \<and> boundary U 89 rest))
   \<and> (\<not> prefix (lit ''MODULE'') line \<and> \<not> prefix (lit ''Module'') line
        \<and> \<not> prefix (lit ''Executive Summary'') line
        \<and> \<not> prefix (lit ''EXECUTIVE SUMMARY'') line
       \<longrightarrow> classify_line U line \<noteq> K_h2)"
proof (intro conjI impI)
  assume "(w = lit ''MODULE'' \<or> w = lit ''Module'')
      \<and> ws \<noteq> [] \<and> (\<forall>c\<in>set ws. isspace U c)
      \<and> ds \<noteq> [] \<and> (\<forall>c\<in>set ds. isdecimal U c) \<and> boundary U (last ds) rest"
  then have "match_module U (w @ ws @ ds @ rest)"
    by (intro module_pattern_matches) simp_all
  then show "classify_line U (w @ ws @ ds @ rest) = K_h2"
    by (simp add: classify_h2_iff)
next
  have lower_y: "last (lit ''Executive Summary'') = 121" and upper_y: "last (lit ''EXECUTIVE SUMMARY'') = 89"
    by (simp_all add: lit_def)
  have "literal_b U (lit ''Executive Summary'') line
          \<longleftrightarrow> (\<exists>rest. line = lit ''Executive Summary'' @ rest \<and> boundary U 121 rest)"
    using literal_b_iff [of "lit ''Executive Summary''" U line] lower_y by (simp add: lit_def)
  moreover have "literal_b U (lit ''EXECUTIVE SUMMARY'') line
          \<longleftrightarrow> (\<exists>rest. line = lit ''EXECUTIVE SUMMARY'' @ rest \<and> boundary U 89 rest)"
    using literal_b_iff [of "lit ''EXECUTIVE SUMMARY''" U line] upper_y by (simp add: lit_def)
  ultimately show "classify_line U line = K_h2 \<longleftrightarrow>
        (\<exists>w ws ds rest. line = w @ ws @ ds @ rest
           \<and> (w = lit ''MODULE'' \<or> w = lit ''Module'')
           \<and> ws \<noteq> [] \<and> (\<forall>c\<in>set ws. isspace U c)
           \<and> ds \<noteq> [] \<and> (\<forall>c\<in>set ds. isdecimal U c) \<and> boundary U (last ds) rest)
        \<or> (\<exists>rest. line = lit ''Executive Summary'' @ rest \<and> boundary U 121 rest)
        \<or> (\<exists>rest. line = lit ''EXECUTIVE SUMMARY'' @ rest \<and> boundary U 89 rest)"
    unfolding classify_h2_iff match_module_iff by simp
next
  assume "\<not> prefix (lit ''MODULE'') line \<and> \<not> prefix (lit ''Module'') line
        \<and> \<not> prefix (lit ''Executive Summary'') line
        \<and> \<not> prefix (lit ''EXECUTIVE SUMMARY'') line"
  then show "classify_line U line \<noteq> K_h2"
    by (simp add: classify_h2_iff match_module_def literal_b_def)
qed

theorem classify_module_heading_witness:
  "(lit ''Module'' = lit ''MODULE'' \<or> lit ''Module'' = lit ''Module'')
   \<and> lit '' '' \<noteq> [] \<and> list_all (isspace ascii) (lit '' '')
   \<and> lit ''3'' \<noteq> [] \<and> list_all (isdecimal ascii) (lit ''3'')
   \<and> boundary ascii (last (lit ''3'')) (lit '': Scaling'')
   \<and> classify_line ascii (lit ''Module'' @ lit '' '' @ lit ''3'' @ lit '': Scaling'') = K_h2
   \<and> \<not> prefix (lit ''MODULE'') (lit ''MoDuLe 3'') \<and> \<not> prefix (lit ''Module'') (lit ''MoDuLe 3'')
   \<and> \<not> prefix (lit ''Executive Summary'') (lit ''MoDuLe 3'')
   \<and> \<not> prefix (lit ''EXECUTIVE SUMMARY'') (lit ''MoDuLe 3'')
   \<and> classify_line ascii (lit ''MoDuLe 3'') \<noteq> K_h2"
proof -
  have word: "lit ''Module'' = lit ''MODULE'' \<or> lit ''Module'' = lit ''Module''"
    by simp
  have blank: "lit '' '' \<noteq> []"
    by (simp add: lit_def)
  have blanks: "list_all (isspace ascii) (lit '' '')"
    by (simp add: lit_def ascii_def ascii_space_def)
  have digit: "lit ''3'' \<noteq> []"
    by (simp add: lit_def)
  have digits: "list_all (isdecimal ascii) (lit ''3'')"
    by (simp add: lit_def ascii_def ascii_digit_def)
  have ends: "boundary ascii (last (lit ''3'')) (lit '': Scaling'')"
    by (simp add: lit_def boundary_def isword_def ascii_def ascii_digit_def ascii_upper_def
          ascii_lower_def)
  from blanks have all_blank: "\<forall>c\<in>set (lit '' ''). isspace ascii c"
    by (simp add: list_all_iff)
  from digits have all_digits: "\<forall>c\<in>set (lit ''3''). isdecimal ascii c"
    by (simp add: list_all_iff)
  have other: "\<not> prefix (lit ''MODULE'') (lit ''MoDuLe 3'')"
      "\<not> prefix (lit ''Module'') (lit ''MoDuLe 3'')"
      "\<not> prefix (lit ''Executive Summary'') (lit ''MoDuLe 3'')"
      "\<not> prefix (lit ''EXECUTIVE SUMMARY'') (lit ''MoDuLe 3'')"
    by (simp_all add: lit_def)
  note inst = classify_module_heading [of "lit ''Module''" "lit '' ''" ascii "lit ''3''"
      "lit '': Scaling''" "lit ''MoDuLe 3''"]
  from inst word blank all_blank digit all_digits ends
  have heading: "classify_line ascii (lit ''Module'' @ lit '' '' @ lit ''3'' @ lit '': Scaling'') = K_h2"
    by blast
  from inst other have plain: "classify_line ascii (lit ''MoDuLe 3'') \<noteq> K_h2"
    by blast
  from word blank blanks digit digits ends heading other plain show ?thesis
    by (intro conjI)
qed

text \<open>
  Claim C4 as stated fails: the spelling of the word is matched as written, and a line
  that starts with \<^verbatim>\<open>module\<close> in lower case is a paragraph candidate.
\<close>

theorem module_case_counterexample:
  "classify_line ascii (lit ''module 3'') = K_p"
  by code_simp

lemma rendered_piece_intros:
  "rendered_piece ul_open" "rendered_piece ul_close" "rendered_piece (h2_markup t)"
  "rendered_piece (h3_markup t)" "rendered_piece (core_markup t)" "rendered_piece (li_markup t)"
  "rendered_piece (p_markup t)"
  by (auto simp: rendered_piece_def)

lemma rendered_close_ul:
  "\<forall>x\<in>set (out st). rendered_piece x \<Longrightarrow> \<forall>x\<in>set (out (close_ul st)). rendered_piece x"
  by (simp add: rendered_piece_intros)

lemma rendered_step:
  assumes "\<forall>x\<in>set (out st). rendered_piece x" "render_line U st raw = Inr st'"
  shows "\<forall>x\<in>set (out st'). rendered_piece x"
proof -
  note closed = rendered_close_ul [OF assms(1)]
  show ?thesis
  proof (cases "classify_line U (strip U raw)")
    case K_h2
    with assms(2) have "out st' = out (close_ul st) @ [h2_markup (strip U raw)]"
      by (auto simp: render_line_h2)
    with closed show ?thesis
      by (simp add: rendered_piece_intros)
  next
    case K_h3
    with assms(2) have "out st' = out (close_ul st) @ [h3_markup (strip U raw)]"
      by (auto simp: render_line_h3)
    with closed show ?thesis
      by (simp add: rendered_piece_intros)
  next
    case K_core
    with assms(2) have "out st' = out (close_ul st) @ [core_markup (strip U (drop 15 (strip U raw)))]"
      by (auto simp: render_line_core)
    with closed show ?thesis
      by (simp add: rendered_piece_intros)
  next
    case K_p
    with assms(2) have "out st' = out (close_ul st) @ [p_markup (strip U raw)]
        \<or> out st' = out st @ [li_markup (strip U raw)]
        \<or> out st' = out st @ [ul_open, li_markup (strip U raw)]"
      by (auto simp: render_line_p split: if_splits)
    with closed assms(1) show ?thesis
      by (auto simp: rendered_piece_intros)
  qed
qed

lemma rendered_steps:
  "\<forall>x\<in>set (out st). rendered_piece x \<Longrightarrow> render_lines U st paras = Inr st'
   \<Longrightarrow> \<forall>x\<in>set (out st'). rendered_piece x"
proof (induction paras arbitrary: st)
  case Nil
  then show ?case by simp
next
  case (Cons raw rest)
  from Cons.prems(2) obtain st1
    where first: "render_line U st raw = Inr st1" and others: "render_lines U st1 rest = Inr st'"
    by (auto split: sum.splits)
  from Cons.prems(1) first have "\<forall>x\<in>set (out st1). rendered_piece x"
    by (rule rendered_step)
  then show ?case
    using others by (rule Cons.IH)
qed

lemma rendered_pieces:
  assumes "build_content_pieces U paras = Inr pieces"
  shows "\<forall>x\<in>set pieces. rendered_piece x"
proof -
  from assms obtain st where st: "render_lines U init paras = Inr st" "pieces = out (close_ul st)"
    by (auto simp: build_content_pieces_def split: sum.splits)
  have "\<forall>x\<in>set (out init). rendered_piece x"
    by (simp add: init_def)
  then have "\<forall>x\<in>set (out st). rendered_piece x"
    using st(1) by (rule rendered_steps)
  then have "\<forall>x\<in>set (out (close_ul st)). rendered_piece x"
    by (rule rendered_close_ul)
  with st(2) show ?thesis
    by simp
qed

lemma grid_open_piece: "rendered_piece x \<Longrightarrow> occurrences grid_open x = 0"
  by (auto simp: rendered_piece_def grid_open_def ul_open_def ul_close_def h2_markup_def
        h3_markup_def core_markup_def li_markup_def p_markup_def lit_def)

lemma grid_open_content:
  assumes "build_content_html U paras = Inr content"
  shows "occurrences grid_open content = 0"
proof -
  from assms obtain pieces
    where pieces: "build_content_pieces U paras = Inr pieces"
      and content: "content = join (lit ''\<newline>'') pieces"
    by (auto simp: build_content_html_def split: sum.splits)
  have "occurrences grid_open (join [10] pieces) = sum_list (map (occurrences grid_open) pieces)"
    by (rule occurrences_join) (simp_all add: grid_open_def lit_def)
  also have "\<dots> = 0"
    using rendered_pieces [OF pieces] by (simp add: grid_open_piece)
  finally show ?thesis
    by (simp add: content lit_def)
qed

lemma sublist_occurrences: "sublist pat s \<longleftrightarrow> 0 < occurrences pat s"
  by (induction s) (auto simp: sublist_Cons_right)

lemma newline_lit: "lit ''\<newline>'' = [10]"
  by (simp add: lit_def)

lemma grid_open_join:
  "occurrences grid_open (join [10] xs) = sum_list (map (occurrences grid_open) xs)"
  by (rule occurrences_join) (simp_all add: grid_open_def lit_def)

lemma grid_open_absent:
  assumes "occurrences grid_open content = 0"
  shows "occurrences grid_open (wrap_page key title content []) = 0"
  unfolding wrap_page_def newline_lit grid_open_join sum_list_eq_0_iff
  using assms by (simp add: gallery_def nav_def grid_open_def lit_def)

lemma sublist_join_elem: "x \<in> set xs \<Longrightarrow> sublist x (join sep xs)"
proof (induction sep xs rule: join.induct)
  case (1 sep)
  then show ?case by simp
next
  case (2 sep y)
  then show ?case by simp
next
  case (3 sep y z zs)
  show ?case
  proof (cases "x = y")
    case True
    then show ?thesis by simp
  next
    case False
    with 3 have "sublist x (join sep (z # zs))"
      by simp
    then have "sublist x ((y @ sep) @ join sep (z # zs))"
      by (rule sublist_order.order.trans) (rule sublist_append_leftI)
    then show ?thesis by simp
  qed
qed

lemma gallery_in_page: "sublist (gallery key imgs) (wrap_page key title content imgs)"
proof -
  have "sublist (lit ''  '' @ gallery key imgs) (wrap_page key title content imgs)"
    unfolding wrap_page_def by (rule sublist_join_elem) simp
  then show ?thesis
    by (rule sublist_order.order.trans [rotated]) (rule sublist_append_leftI)
qed

lemma figures_in_gallery:
  assumes "imgs \<noteq> []"
  shows "sublist (join (lit ''\<newline>'') (map (figure key) imgs)) (gallery key imgs)"
proof -
  have "sublist (lit ''            '' @ join (lit ''\<newline>'') (map (figure key) imgs)) (gallery key imgs)"
    using assms by (simp add: gallery_def Let_def sublist_join_elem del: join.simps)
  then show ?thesis
    by (rule sublist_order.order.trans [rotated]) (rule sublist_append_leftI)
qed

lemma grid_in_gallery:
  assumes "imgs \<noteq> []"
  shows "sublist grid_open (gallery key imgs)"
proof -
  have line: \<open>sublist (lit ''          <div class="imggrid">'') (gallery key imgs)\<close>
    using assms by (simp add: gallery_def Let_def sublist_join_elem del: join.simps)
  have \<open>lit ''          <div class="imggrid">'' = lit ''          '' @ grid_open\<close>
    by (simp add: grid_open_def lit_def)
  then have \<open>sublist grid_open (lit ''          <div class="imggrid">'')\<close>
    by (simp only: sublist_append_leftI)
  then show ?thesis
    using line by (rule sublist_order.order.trans)
qed

lemma source_in_figure:
  \<open>sublist (lit ''<img src="../images/'' @ key @ lit ''/'' @ escape name @ lit ''"'')
     (figure key name)\<close>
proof -
  have \<open>figure key name =
      lit ''<figure class="img">''
        @ (lit ''<img src="../images/'' @ key @ lit ''/'' @ escape name @ lit ''"'')
        @ (lit '' alt="'' @ escape name @ lit ''"><figcaption>'' @ escape name
            @ lit ''</figcaption></figure>'')\<close>
    by (simp add: figure_def lit_def)
  then show ?thesis
    by (simp only: sublist_appendI)
qed

lemma figure_in_page:
  assumes "name \<in> set imgs"
  shows "sublist (figure key name) (wrap_page key title content imgs)"
proof -
  from assms have "imgs \<noteq> []"
    by auto
  from assms have "sublist (figure key name) (join (lit ''\<newline>'') (map (figure key) imgs))"
    by (intro sublist_join_elem) simp
  also have "sublist \<dots> (gallery key imgs)"
    using \<open>imgs \<noteq> []\<close> by (rule figures_in_gallery)
  also have "sublist \<dots> (wrap_page key title content imgs)"
    by (rule gallery_in_page)
  finally show ?thesis .
qed

lemma escape_plain:
  "\<forall>c\<in>set name. c \<notin> {38, 60, 62, 34, 39} \<Longrightarrow> escape name = name"
  by (induction name) (simp_all add: escape_def escape_char_def)

text \<open>
  Claim C8. A page assembled from a rendered fragment and no extracted image contains no
  gallery grid. With at least one extracted image the page contains the grid, and for every
  extracted file name an image whose source is \<^verbatim>\<open>../images/\<close>, the key, a slash and the
  name, written with its markup characters escaped: the name itself when it has none.
\<close>

theorem gallery_block:
  \<open>(build_content_html U paras = Inr content
       \<longrightarrow> \<not> sublist (lit ''<div class="imggrid">'') (wrap_page key title content []))
    \<and> (imgs \<noteq> []
       \<longrightarrow> sublist (lit ''<div class="imggrid">'') (wrap_page key title content imgs)
           \<and> (\<forall>name\<in>set imgs.
                 sublist (lit ''<img src="../images/'' @ key @ lit ''/'' @ escape name @ lit ''"'')
                   (wrap_page key title content imgs)
                 \<and> ((\<forall>c\<in>set name. c \<notin> {38, 60, 62, 34, 39})
                      \<longrightarrow> sublist (lit ''<img src="../images/'' @ key @ lit ''/'' @ name @ lit ''"'')
                            (wrap_page key title content imgs))))\<close>
proof (intro conjI impI ballI)
  assume "build_content_html U paras = Inr content"
  then have "occurrences grid_open content = 0"
    by (rule grid_open_content)
  then have "occurrences grid_open (wrap_page key title content []) = 0"
    by (rule grid_open_absent)
  then show \<open>\<not> sublist (lit ''<div class="imggrid">'') (wrap_page key title content [])\<close>
    by (simp add: sublist_occurrences grid_open_def)
next
  assume "imgs \<noteq> []"
  then have "sublist grid_open (gallery key imgs)"
    by (rule grid_in_gallery)
  also have "sublist \<dots> (wrap_page key title content imgs)"
    by (rule gallery_in_page)
  finally show \<open>sublist (lit ''<div class="imggrid">'') (wrap_page key title content imgs)\<close>
    by (simp add: grid_open_def)
next
  fix name
  assume "name \<in> set imgs"
  have \<open>sublist (lit ''<img src="../images/'' @ key @ lit ''/'' @ escape name @ lit ''"'')
          (figure key name)\<close>
    by (rule source_in_figure)
  also have "sublist \<dots> (wrap_page key title content imgs)"
    using \<open>name \<in> set imgs\<close> by (rule figure_in_page)
  finally show escaped:
    \<open>sublist (lit ''<img src="../images/'' @ key @ lit ''/'' @ escape name @ lit ''"'')
          (wrap_page key title content imgs)\<close> .
  assume "\<forall>c\<in>set name. c \<notin> {38, 60, 62, 34, 39}"
  then have "escape name = name"
    by (rule escape_plain)
  with escaped show
    \<open>sublist (lit ''<img src="../images/'' @ key @ lit ''/'' @ name @ lit ''"'')
          (wrap_page key title content imgs)\<close>
    by simp
qed

theorem gallery_block_witness:
  \<open>build_content_html ascii [lit ''Framework''] = Inr (lit ''<h3 class="subsec">Framework</h3>'')
    \<and> [lit ''image1.png''] \<noteq> []
    \<and> \<not> sublist (lit ''<div class="imggrid">'')
          (wrap_page (lit ''power'') (lit ''Power'') (lit ''<h3 class="subsec">Framework</h3>'') [])
    \<and> sublist (lit ''<div class="imggrid">'')
          (wrap_page (lit ''power'') (lit ''Power'') (lit ''<h3 class="subsec">Framework</h3>'')
             [lit ''image1.png''])
    \<and> sublist (lit ''<img src="../images/'' @ lit ''power'' @ lit ''/'' @ lit ''image1.png'' @ lit ''"'')
          (wrap_page (lit ''power'') (lit ''Power'') (lit ''<h3 class="subsec">Framework</h3>'')
             [lit ''image1.png''])\<close>
proof -
  have content: \<open>build_content_html ascii [lit ''Framework'']
                   = Inr (lit ''<h3 class="subsec">Framework</h3>'')\<close>
    by code_simp
  have images: "[lit ''image1.png''] \<noteq> []"
    by simp
  have plain: "\<forall>c\<in>set (lit ''image1.png''). c \<notin> {38, 60, 62, 34, 39}"
    by (simp add: lit_def)
  from gallery_block [of ascii "[lit ''Framework'']" \<open>lit ''<h3 class="subsec">Framework</h3>''\<close>
      "lit ''power''" "lit ''Power''" "[lit ''image1.png'']"] content images plain
  show ?thesis
    by simp
qed

lemma build_content_html_total: "\<exists>html. build_content_html U paras = Inr html"
  using render_lines_total [of U init paras]
  by (auto simp: build_content_html_def build_content_pieces_def)

lemma page_of_total: "\<exists>html. page_of U key paras0 extracted = Inr html"
proof -
  let ?paras = "cut_section U paras0 (END_MARKERS key)"
  obtain content where "build_content_html U ?paras = Inr content"
    using build_content_html_total by blast
  then show ?thesis
    by (simp add: page_of_def Let_def)
qed

lemma zread_member:
  assumes "f \<in> set (map fst z)"
  shows "\<exists>d. zread z f = Inr d"
proof -
  from assms have "f \<in> fst ` set (rev z)"
    by simp
  then have "map_of (rev z) f \<noteq> None"
    by (simp add: map_of_eq_None_iff)
  then show ?thesis
    by (auto simp: zread_def)
qed

lemma files_write_file [simp]:
  "files (write_file path d w) = (files w)(path \<mapsto> d)"
  "printed (write_file path d w) = printed w"
  by (simp_all add: write_file_def)

lemma files_print [simp]:
  "files (print e w) = files w"
  "printed (print e w) = printed w @ [e]"
  by (simp_all add: print_def)

lemma extract_loop_result:
  assumes "\<forall>f\<in>set fs. f \<in> set (map fst z)"
  shows "\<exists>w'. extract_loop z folder fs (acc, w) = Inr (acc @ map path_name fs, w')
           \<and> (\<forall>p. \<not> prefix (folder @ lit ''/'') p \<longrightarrow> files w' p = files w p)"
  using assms
proof (induction fs arbitrary: acc w)
  case Nil
  then show ?case by simp
next
  case (Cons f fs)
  from Cons.prems obtain d where d: "zread z f = Inr d"
    using zread_member [of f z] by auto
  let ?w1 = "write_file (folder @ lit ''/'' @ path_name f) (Bytes d) w"
  from Cons.prems have "\<forall>f\<in>set fs. f \<in> set (map fst z)"
    by simp
  from Cons.IH [OF this, of "acc @ [path_name f]" ?w1]
  obtain w' where w': "extract_loop z folder fs (acc @ [path_name f], ?w1)
        = Inr ((acc @ [path_name f]) @ map path_name fs, w')"
      "\<forall>p. \<not> prefix (folder @ lit ''/'') p \<longrightarrow> files w' p = files ?w1 p"
    by blast
  have "files ?w1 p = files w p" if "\<not> prefix (folder @ lit ''/'') p" for p
    using that by (auto simp: prefix_def)
  with w' d show ?case
    by (simp add: Let_def)
qed

lemma extract_docx_images_result:
  assumes "open_zip docx = Inr z"
  shows "\<exists>w'. extract_docx_images docx folder w = Inr (image_names docx, w')
           \<and> (\<forall>p. \<not> prefix (folder @ lit ''/'') p \<longrightarrow> files w' p = files w p)"
proof -
  from assms have docx: "docx = Zip z"
    by (auto simp: open_zip_def split: content.splits)
  have "\<forall>f\<in>set (filter (prefix (lit ''word/media/'')) (map fst z)). f \<in> set (map fst z)"
    by simp
  from extract_loop_result [OF this, of folder "[]" w] assms docx show ?thesis
    by (simp add: extract_docx_images_def image_names_def Let_def)
qed

lemma read_opens:
  "read_docx_paragraphs U docx = Inr paras \<Longrightarrow> \<exists>z. open_zip docx = Inr z"
  by (auto simp: read_docx_paragraphs_def split: sum.splits)

lemma main_loop_missing:
  "files w filename = None \<Longrightarrow>
   main_loop U ((key, filename) # rest) w = main_loop U rest (print (Skip filename) w)"
  by simp

lemma main_loop_unreadable:
  "files w filename = Some docx \<Longrightarrow> read_docx_paragraphs U docx = Inl e \<Longrightarrow>
   main_loop U ((key, filename) # rest) w = (print (Read filename) w, Some e)"
  by (simp add: Let_def)

lemma main_loop_page:
  assumes "files w filename = Some docx" "read_docx_paragraphs U docx = Inr paras0"
  shows "\<exists>w3 html. page_of U key paras0 (image_names docx) = Inr html
           \<and> main_loop U ((key, filename) # rest) w = main_loop U rest w3
           \<and> files w3 (page_path key) = Some (Text html)
           \<and> (\<forall>p. \<not> prefix (lit ''images/'') p \<longrightarrow> p \<noteq> page_path key \<longrightarrow> files w3 p = files w p)"
proof -
  obtain html where html: "page_of U key paras0 (image_names docx) = Inr html"
    using page_of_total by blast
  from assms(2) obtain z where "open_zip docx = Inr z"
    using read_opens by blast
  from extract_docx_images_result [OF this, of "lit ''images/'' @ key" "print (Read filename) w"]
  obtain w2 where w2:
      "extract_docx_images docx (lit ''images/'' @ key) (print (Read filename) w)
         = Inr (image_names docx, w2)"
      "\<forall>p. \<not> prefix ((lit ''images/'' @ key) @ lit ''/'') p \<longrightarrow> files w2 p = files w p"
    by auto
  have keep: "files w2 p = files w p" if "\<not> prefix (lit ''images/'') p" for p
  proof -
    from that have "\<not> prefix ((lit ''images/'' @ key) @ lit ''/'') p"
      by (metis append.assoc append_prefixD)
    with w2(2) show ?thesis
      by simp
  qed
  define w3 where "w3 = print (Write (page_path key) (length (image_names docx)))
                          (write_file (page_path key) (Text html) w2)"
  have "main_loop U ((key, filename) # rest) w = main_loop U rest w3"
    using assms w2(1) html
    by (auto simp: Let_def page_of_def w3_def page_path_def split: sum.splits)
  moreover have "files w3 (page_path key) = Some (Text html)"
    by (simp add: w3_def)
  moreover have "files w3 p = files w p" if "\<not> prefix (lit ''images/'') p" "p \<noteq> page_path key" for p
    using that keep by (simp add: w3_def)
  ultimately show ?thesis
    using html by blast
qed

lemma page_path_inj: "page_path k = page_path k' \<Longrightarrow> k = k'"
  by (simp add: page_path_def)

lemma page_path_output: "output_path (page_path k)"
  by (simp add: page_path_def output_path_def)

lemma page_path_not_image: "\<not> prefix (lit ''images/'') (page_path k)"
  by (simp add: page_path_def lit_def)

lemma not_output_path:
  assumes "\<not> output_path p"
  shows "\<not> prefix (lit ''images/'') p" and "p \<noteq> page_path k"
  using assms page_path_output [of k] by (auto simp: output_path_def)

lemma main_loop_cases:
  obtains (missing) "files w filename = None"
      "main_loop U ((key, filename) # rest) w = main_loop U rest (print (Skip filename) w)"
    | (unreadable) docx e where "files w filename = Some docx"
      "read_docx_paragraphs U docx = Inl e"
      "main_loop U ((key, filename) # rest) w = (print (Read filename) w, Some e)"
    | (page) docx paras0 w3 html where "files w filename = Some docx"
      "read_docx_paragraphs U docx = Inr paras0"
      "page_of U key paras0 (image_names docx) = Inr html"
      "main_loop U ((key, filename) # rest) w = main_loop U rest w3"
      "files w3 (page_path key) = Some (Text html)"
      "\<forall>p. \<not> prefix (lit ''images/'') p \<longrightarrow> p \<noteq> page_path key \<longrightarrow> files w3 p = files w p"
proof (cases "files w filename")
  case None
  then show ?thesis
    using missing main_loop_missing by blast
next
  case (Some docx)
  show ?thesis
  proof (cases "read_docx_paragraphs U docx")
    case (Inl e)
    with Some show ?thesis
      using unreadable main_loop_unreadable by blast
  next
    case (Inr paras0)
    from main_loop_page [OF Some Inr, of key rest] Some Inr show ?thesis
      using page by blast
  qed
qed

lemma main_loop_keeps:
  assumes "main_loop U docs w = (w', status)"
    and "\<not> prefix (lit ''images/'') p" and "\<forall>k\<in>fst ` set docs. p \<noteq> page_path k"
  shows "files w' p = files w p"
  using assms
proof (induction docs arbitrary: w)
  case Nil
  then show ?case by auto
next
  case (Cons entry rest)
  obtain key filename where entry: "entry = (key, filename)"
    by (cases entry)
  from Cons.prems(3) entry have p: "p \<noteq> page_path key" and rest: "\<forall>k\<in>fst ` set rest. p \<noteq> page_path k"
    by auto
  show ?case
  proof (cases rule: main_loop_cases [of w filename U key rest])
    case missing
    with Cons.prems(1) entry have "main_loop U rest (print (Skip filename) w) = (w', status)"
      by simp
    from Cons.IH [OF this Cons.prems(2) rest] show ?thesis
      by simp
  next
    case (unreadable docx e)
    with Cons.prems(1) entry show ?thesis
      by auto
  next
    case (page docx paras0 w3 html)
    with Cons.prems(1) entry have "main_loop U rest w3 = (w', status)"
      by simp
    from Cons.IH [OF this Cons.prems(2) rest] page(6) Cons.prems(2) p show ?thesis
      by simp
  qed
qed

lemma main_loop_writes_page:
  assumes "main_loop U docs w = (w', None)"
    and "distinct (map fst docs)" and "\<forall>(k, f)\<in>set docs. \<not> output_path f"
    and "(key, filename) \<in> set docs"
    and "files w filename = Some docx" and "read_docx_paragraphs U docx = Inr paras0"
  shows "\<exists>html. page_of U key paras0 (image_names docx) = Inr html
           \<and> files w' (page_path key) = Some (Text html)"
  using assms
proof (induction docs arbitrary: w)
  case Nil
  then show ?case by simp
next
  case (Cons entry rest)
  obtain k f where entry: "entry = (k, f)"
    by (cases entry)
  from Cons.prems(2) entry have fresh: "k \<notin> fst ` set rest" and dist: "distinct (map fst rest)"
    by auto
  from Cons.prems(3) have plain: "\<forall>(k, f)\<in>set rest. \<not> output_path f"
    by simp
  from Cons.prems(3,4) have filename: "\<not> output_path filename"
    by auto
  show ?case
  proof (cases rule: main_loop_cases [of w f U k rest])
    case missing
    with Cons.prems(1) entry have run: "main_loop U rest (print (Skip f) w) = (w', None)"
      by simp
    from missing(1) Cons.prems(4,5) entry have "(key, filename) \<in> set rest"
      by auto
    from Cons.IH [OF run dist plain this] Cons.prems(5,6) show ?thesis
      by simp
  next
    case (unreadable d e)
    with Cons.prems(1) entry show ?thesis
      by simp
  next
    case (page d ps w3 html)
    with Cons.prems(1) entry have run: "main_loop U rest w3 = (w', None)"
      by simp
    show ?thesis
    proof (cases "(key, filename) = (k, f)")
      case True
      with page(1,2) Cons.prems(5,6) have same: "d = docx" "ps = paras0"
        by auto
      have others: "\<forall>k'\<in>fst ` set rest. page_path k \<noteq> page_path k'"
        using fresh page_path_inj by blast
      from run page_path_not_image others
      have "files w' (page_path k) = files w3 (page_path k)"
        by (rule main_loop_keeps)
      with page(3,5) same True show ?thesis
        by simp
    next
      case False
      with Cons.prems(4) entry have member: "(key, filename) \<in> set rest"
        by auto
      from page(6) filename have "files w3 filename = files w filename"
        using not_output_path by blast
      with Cons.prems(5) have "files w3 filename = Some docx"
        by simp
      from Cons.IH [OF run dist plain member this Cons.prems(6)] show ?thesis .
    qed
  qed
qed

lemma main_loop_completes:
  assumes "\<forall>(k, f)\<in>set docs. \<not> output_path f"
    and "\<forall>(k, f)\<in>set docs. \<forall>d. files w f = Some d \<longrightarrow> (\<exists>ps. read_docx_paragraphs U d = Inr ps)"
  shows "snd (main_loop U docs w) = None"
  using assms
proof (induction docs arbitrary: w)
  case Nil
  then show ?case by simp
next
  case (Cons entry rest)
  obtain k f where entry: "entry = (k, f)"
    by (cases entry)
  from Cons.prems(1) have plain: "\<forall>(k, f)\<in>set rest. \<not> output_path f"
    by simp
  show ?case
  proof (cases rule: main_loop_cases [of w f U k rest])
    case missing
    have "\<forall>(k, f')\<in>set rest. \<forall>d. files (print (Skip f) w) f' = Some d
        \<longrightarrow> (\<exists>ps. read_docx_paragraphs U d = Inr ps)"
      using Cons.prems(2) by auto
    from Cons.IH [OF plain this] missing(2) entry show ?thesis
      by simp
  next
    case (unreadable d e)
    with Cons.prems(2) entry show ?thesis
      by auto
  next
    case (page d ps w3 html)
    have "\<forall>(k', f')\<in>set rest. \<forall>d. files w3 f' = Some d \<longrightarrow> (\<exists>ps. read_docx_paragraphs U d = Inr ps)"
    proof (intro ballI, clarify)
      fix k' f' d'
      assume member: "(k', f') \<in> set rest" and d': "files w3 f' = Some d'"
      from member plain have "\<not> output_path f'"
        by auto
      with page(6) have "files w3 f' = files w f'"
        using not_output_path by blast
      with d' member Cons.prems(2) show "\<exists>ps. read_docx_paragraphs U d' = Inr ps"
        by auto
    qed
    from Cons.IH [OF plain this] page(4) entry show ?thesis
      by simp
  qed
qed

lemma DOCS_keys: "distinct (map fst DOCS)"
  by (simp add: DOCS_def lit_def)

lemma DOCS_files: "\<forall>(k, f)\<in>set DOCS. \<not> output_path f"
  by (simp add: DOCS_def output_path_def lit_def)

text \<open>
  Claim C9. Take two runs of the driver, in any two worlds, that both complete, and a
  configured document that exists in both with the same extracted paragraphs and the same
  extracted image names. Both runs leave the same page at the path of its key: the page
  depends on nothing else in the world.
\<close>

theorem page_deterministic:
  assumes "(key, filename) \<in> set DOCS"
    and "main U w1 = (w1', None)" and "main U w2 = (w2', None)"
    and "files w1 filename = Some docx1" and "files w2 filename = Some docx2"
    and "read_docx_paragraphs U docx1 = Inr paras" and "read_docx_paragraphs U docx2 = Inr paras"
    and "image_names docx1 = image_names docx2"
  shows "\<exists>html. files w1' (lit ''platforms/'' @ key @ lit ''.html'') = Some (Text html)
           \<and> files w2' (lit ''platforms/'' @ key @ lit ''.html'') = Some (Text html)"
proof -
  from assms(2) have run1: "main_loop U DOCS w1 = (w1', None)"
    by (simp add: main_def)
  from assms(3) have run2: "main_loop U DOCS w2 = (w2', None)"
    by (simp add: main_def)
  from main_loop_writes_page [OF run1 DOCS_keys DOCS_files assms(1,4,6)]
  obtain html where html: "page_of U key paras (image_names docx1) = Inr html"
      "files w1' (page_path key) = Some (Text html)"
    by blast
  from main_loop_writes_page [OF run2 DOCS_keys DOCS_files assms(1,5,7)] html(1) assms(8)
  have "files w2' (page_path key) = Some (Text html)"
    by simp
  with html(2) show ?thesis
    by (auto simp: page_path_def)
qed

lemma example_docx_paragraphs:
  "read_docx_paragraphs ascii example_docx
     = Inr [lit ''Power'', lit ''Module 1'', lit ''Framework'', lit ''Builds trust.'']"
  by code_simp

lemma empty_docx_paragraphs: "read_docx_paragraphs ascii empty_docx = Inr []"
  by code_simp

lemma world_one_completes: "snd (main ascii world_one) = None"
  unfolding main_def
proof (rule main_loop_completes [OF DOCS_files])
  show "\<forall>(k, f)\<in>set DOCS. \<forall>d. files world_one f = Some d
          \<longrightarrow> (\<exists>ps. read_docx_paragraphs ascii d = Inr ps)"
    unfolding DOCS_def world_one_def by (simp add: lit_def example_docx_paragraphs)
qed

lemma world_two_completes: "snd (main ascii world_two) = None"
  unfolding main_def
proof (rule main_loop_completes [OF DOCS_files])
  show "\<forall>(k, f)\<in>set DOCS. \<forall>d. files world_two f = Some d
          \<longrightarrow> (\<exists>ps. read_docx_paragraphs ascii d = Inr ps)"
    unfolding DOCS_def world_two_def
    by (simp add: lit_def example_docx_paragraphs empty_docx_paragraphs)
qed

theorem page_deterministic_witness:
  "(lit ''power'', lit ''Power platform.docx'') \<in> set DOCS
   \<and> main ascii world_one = (fst (main ascii world_one), None)
   \<and> main ascii world_two = (fst (main ascii world_two), None)
   \<and> files world_one (lit ''Power platform.docx'') = Some example_docx
   \<and> files world_two (lit ''Power platform.docx'') = Some example_docx
   \<and> read_docx_paragraphs ascii example_docx
        = Inr [lit ''Power'', lit ''Module 1'', lit ''Framework'', lit ''Builds trust.'']
   \<and> image_names example_docx = image_names example_docx
   \<and> (\<exists>html. files (fst (main ascii world_one)) (lit ''platforms/'' @ lit ''power'' @ lit ''.html'')
                  = Some (Text html)
              \<and> files (fst (main ascii world_two)) (lit ''platforms/'' @ lit ''power'' @ lit ''.html'')
                  = Some (Text html))"
proof -
  have entry: "(lit ''power'', lit ''Power platform.docx'') \<in> set DOCS"
    by (simp add: DOCS_def)
  have run1: "main ascii world_one = (fst (main ascii world_one), None)"
    using world_one_completes by (simp add: prod_eq_iff)
  have run2: "main ascii world_two = (fst (main ascii world_two), None)"
    using world_two_completes by (simp add: prod_eq_iff)
  have file1: "files world_one (lit ''Power platform.docx'') = Some example_docx"
    by (simp add: world_one_def)
  have file2: "files world_two (lit ''Power platform.docx'') = Some example_docx"
    by (simp add: world_two_def lit_def)
  note paras = example_docx_paragraphs
  have names: "image_names example_docx = image_names example_docx"
    by (rule refl)
  from page_deterministic [OF entry run1 run2 file1 file2 paras paras names]
    entry run1 run2 file1 file2 paras names
  show ?thesis
    by (intro conjI)
qed

text \<open>
  Claim C5. In a world where the first configured document is not an archive, or is an
  archive without its body member, the run ends there with the error: the later document,
  present and readable, is not processed.
\<close>

theorem unreadable_archive_aborts:
  "main ascii world_corrupt
     = (print (Read (lit ''Business and Entrepenurship Platform.docx'')) world_corrupt,
        Some BadZipFile)
   \<and> main ascii world_no_body
     = (print (Read (lit ''Business and Entrepenurship Platform.docx'')) world_no_body,
        Some KeyError)
   \<and> files world_corrupt (lit ''Power platform.docx'') = Some example_docx
   \<and> files world_no_body (lit ''Power platform.docx'') = Some example_docx
   \<and> read_docx_paragraphs ascii example_docx
        = Inr [lit ''Power'', lit ''Module 1'', lit ''Framework'', lit ''Builds trust.'']"
proof (intro conjI)
  have "files world_corrupt (lit ''Business and Entrepenurship Platform.docx'') = Some (Bytes (Raw []))"
    by (simp add: world_corrupt_def lit_def)
  moreover have "read_docx_paragraphs ascii (Bytes (Raw [])) = Inl BadZipFile"
    by (simp add: read_docx_paragraphs_def open_zip_def)
  ultimately show "main ascii world_corrupt
     = (print (Read (lit ''Business and Entrepenurship Platform.docx'')) world_corrupt,
        Some BadZipFile)"
    unfolding main_def DOCS_def by (rule main_loop_unreadable)
next
  have "files world_no_body (lit ''Business and Entrepenurship Platform.docx'')
          = Some (Zip [(lit ''word/media/image1.png'', Raw [137, 80, 78, 71])])"
    by (simp add: world_no_body_def lit_def)
  moreover have "read_docx_paragraphs ascii (Zip [(lit ''word/media/image1.png'', Raw [137, 80, 78, 71])])
                   = Inl KeyError"
    by (simp add: read_docx_paragraphs_def open_zip_def zread_def lit_def)
  ultimately show "main ascii world_no_body
     = (print (Read (lit ''Business and Entrepenurship Platform.docx'')) world_no_body,
        Some KeyError)"
    unfolding main_def DOCS_def by (rule main_loop_unreadable)
next
  show "files world_corrupt (lit ''Power platform.docx'') = Some example_docx"
    by (simp add: world_corrupt_def)
  show "files world_no_body (lit ''Power platform.docx'') = Some example_docx"
    by (simp add: world_no_body_def)
  show "read_docx_paragraphs ascii example_docx
        = Inr [lit ''Power'', lit ''Module 1'', lit ''Framework'', lit ''Builds trust.'']"
    by (rule example_docx_paragraphs)
qed

end
